theory Spec2Isabelle
  imports Complex_Main "HOL-Library.Word" "HOL-Library.List_Lexorder"
begin

unbundle bit_operations_syntax

section \<open>Data model of the contact manager\<close>

text \<open>
  The embedding follows \<^verbatim>\<open>src/src/nimble_contact_manager.cc\<close>.
  \<^item> A C++ \<^verbatim>\<open>double\<close> is a \<^typ>\<open>real\<close>: arithmetic is exact. Where the source
    divides by a quantity that can be zero, the IEEE outcome (a NaN, for which every
    comparison is false) is written into the model as an explicit test.
  \<^item> A C++ \<^verbatim>\<open>int\<close> that is a node index, a count or a mesh id is an \<^typ>\<open>int\<close>;
    the packed entity ids, which are built with shifts that can leave the 32-bit range,
    are \<^typ>\<open>32 word\<close> (read as signed by \<^const>\<open>sint\<close>).
  \<^item> A \<^verbatim>\<open>std::vector\<close> is a list, a raw pointer into caller memory
    (\<^verbatim>\<open>const double* displacement\<close>, \<^verbatim>\<open>double* contact_force\<close>,
    \<^verbatim>\<open>const int* genesis_node_global_ids\<close>) is a function from the index to the value.
  \<^item> \<^verbatim>\<open>NIMBLE_ABORT\<close> is the error value \<open>Inl Abort\<close>, the \<^verbatim>\<open>std::out_of_range\<close>
    of \<^verbatim>\<open>.at()\<close> is \<open>Inl OutOfRange\<close>.
\<close>

type_synonym vec3 = "real \<times> real \<times> real"

datatype CONTACT_ENTITY_TYPE = NODE | TRIANGLE

datatype PROJECTION_TYPE = UNKNOWN | NODE_OR_EDGE | FACE

datatype error = Abort | OutOfRange

text \<open>
  Modelled from the spec: the class \<^verbatim>\<open>ContactEntity\<close> (declared in
  \<^verbatim>\<open>nimble_contact_entity.h\<close>, not part of the sources at hand). The spec gives its
  attributes: kind, parallel-unique id, local index, up to three vertex coordinate
  triples, a characteristic length, and for a triangle the two real mesh nodes of its
  first two vertices and the four real nodes whose barycenter is the third vertex.
  \<open>coord_1\<close> stands for the fields \<^verbatim>\<open>coord_1_x_, coord_1_y_, coord_1_z_\<close>, and so on.
\<close>

record ContactEntity =
  entity_type :: CONTACT_ENTITY_TYPE
  contact_entity_global_id :: "32 word"
  local_id :: nat
  coord_1 :: vec3
  coord_2 :: vec3
  coord_3 :: vec3
  char_len :: real
  node_id_for_node_1 :: int
  node_id_for_node_2 :: int
  node_ids_for_fictitious_node :: "int list"

text \<open>Reading a \<^verbatim>\<open>std::vector\<close> at an \<^verbatim>\<open>int\<close> index.\<close>

definition vec_at :: "'a list \<Rightarrow> int \<Rightarrow> 'a" where
  "vec_at xs i = xs ! nat i"

definition triple_at :: "real list \<Rightarrow> int \<Rightarrow> vec3" where
  "triple_at c n = (vec_at c (3 * n), vec_at c (3 * n + 1), vec_at c (3 * n + 2))"

text \<open>
  Modelled from the spec: \<^verbatim>\<open>ContactEntity::SetCoordinates\<close> (in the missing header).
  A node takes the coordinates of its mesh node; a triangle takes its first two vertices
  from its two real nodes and its third vertex as the barycenter of the four nodes of the
  quadrilateral face.
\<close>

definition SetCoordinates :: "real list \<Rightarrow> ContactEntity \<Rightarrow> ContactEntity" where
  "SetCoordinates c e =
     (case entity_type e of
        NODE \<Rightarrow> e\<lparr>coord_1 := triple_at c (node_id_for_node_1 e)\<rparr>
      | TRIANGLE \<Rightarrow>
          (let f = node_ids_for_fictitious_node e;
               avg = (\<lambda>j. (vec_at c (3 * (f ! 0) + j) + vec_at c (3 * (f ! 1) + j)
                            + vec_at c (3 * (f ! 2) + j) + vec_at c (3 * (f ! 3) + j)) / 4)
           in e\<lparr>coord_1 := triple_at c (node_id_for_node_1 e),
                 coord_2 := triple_at c (node_id_for_node_2 e),
                 coord_3 := (avg 0, avg 1, avg 2)\<rparr>))"

text \<open>The members of \<^verbatim>\<open>ContactManager\<close> that the functions below read and write.\<close>

record ContactManager =
  node_ids :: "int list"
  model_coord :: "real list"
  coord :: "real list"
  force :: "real list"
  contact_faces :: "ContactEntity list"
  contact_nodes :: "ContactEntity list"

section \<open>Displacement application and force gathering\<close>

text \<open>
  \<^verbatim>\<open>ApplyDisplacements\<close>, lines 731-742. The outer loop runs over the local index
  \<open>i_node\<close>, the inner one over the three components; afterwards every contact face and
  every contact node re-reads its coordinates from the new \<open>coord_\<close>.
\<close>

definition apply_node :: "int list \<Rightarrow> real list \<Rightarrow> (int \<Rightarrow> real) \<Rightarrow> nat \<Rightarrow> real list \<Rightarrow> real list" where
  "apply_node ids mc displacement i_node c =
     fold (\<lambda>i c. c[3 * i_node + i := mc ! (3 * i_node + i) + displacement (3 * (ids ! i_node) + int i)])
          [0..<3] c"

definition ApplyDisplacements :: "(int \<Rightarrow> real) \<Rightarrow> ContactManager \<Rightarrow> ContactManager" where
  "ApplyDisplacements displacement s =
     (let c = fold (apply_node (node_ids s) (model_coord s) displacement)
                   [0..<length (node_ids s)] (coord s)
      in s\<lparr>coord := c,
            contact_faces := map (SetCoordinates c) (contact_faces s),
            contact_nodes := map (SetCoordinates c) (contact_nodes s)\<rparr>)"

text \<open>\<^verbatim>\<open>GetForces\<close>, lines 744-751: a scatter by direct assignment.\<close>

definition get_node :: "int list \<Rightarrow> real list \<Rightarrow> nat \<Rightarrow> (int \<Rightarrow> real) \<Rightarrow> (int \<Rightarrow> real)" where
  "get_node ids f i_node contact_force =
     fold (\<lambda>i cf. cf(3 * (ids ! i_node) + int i := f ! (3 * i_node + i))) [0..<3] contact_force"

definition GetForces :: "ContactManager \<Rightarrow> (int \<Rightarrow> real) \<Rightarrow> (int \<Rightarrow> real)" where
  "GetForces s contact_force =
     fold (get_node (node_ids s) (force s)) [0..<length (node_ids s)] contact_force"

section \<open>Mesh skinning\<close>

text \<open>
  Modelled from the spec: the accessors of \<^verbatim>\<open>GenesisMesh\<close> that the contact manager
  calls (the class is declared in \<^verbatim>\<open>nimble_genesis_mesh.h\<close>, not part of the sources at
  hand): per block the element count, the nodes per element, the connectivity and the
  element global ids; per node the global id.
\<close>

record Block =
  num_elem_in_block :: nat
  num_node_per_elem :: nat
  conn :: "int list"
  elem_global_ids :: "int list"

record GenesisMesh =
  block :: "int \<Rightarrow> Block"
  node_global_ids :: "int \<Rightarrow> int"

text \<open>
  The \<^verbatim>\<open>std::map\<close> from the sorted node list of a face to
  \<open>[count, n0, n1, n2, n3, element id, face ordinal]\<close> is the list of its entries in key
  order, the order in which the final loop of \<^verbatim>\<open>SkinBlocks\<close> visits them. Vectors
  compare lexicographically, as lists do.
\<close>

type_synonym face_map = "(int list \<times> int list) list"

definition record_face :: "int list \<Rightarrow> int list \<Rightarrow> face_map \<Rightarrow> face_map" where
  "record_face key val faces =
     (case map_of faces key of
        None \<Rightarrow> insort_key fst (key, val) faces
      | Some _ \<Rightarrow> map (\<lambda>(k, v). if k = key then (k, v[0 := v ! 0 + 1]) else (k, v)) faces)"

text \<open>The corner templates of the six faces of a hexahedron, lines 845-920.\<close>

definition face_corners :: "nat list list" where
  "face_corners = [[0, 1, 5, 4], [1, 2, 6, 5], [2, 3, 7, 6], [0, 4, 7, 3], [0, 3, 2, 1], [4, 5, 6, 7]]"

definition corner_nodes :: "int list \<Rightarrow> nat \<Rightarrow> nat \<Rightarrow> int list" where
  "corner_nodes cn conn_index ordinal = map (\<lambda>k. cn ! (conn_index + k)) (face_corners ! ordinal)"

definition face_value :: "int list \<times> int \<times> nat \<Rightarrow> int list" where
  "face_value f = (case f of (nodes, elem_global_id, ordinal) \<Rightarrow>
                     [1] @ nodes @ [elem_global_id, int ordinal])"

definition face_key :: "int list \<times> int \<times> nat \<Rightarrow> int list" where
  "face_key f = sort (fst f)"

definition add_face :: "int list \<times> int \<times> nat \<Rightarrow> face_map \<Rightarrow> face_map" where
  "add_face f faces = record_face (face_key f) (face_value f) faces"

definition add_element :: "Block \<Rightarrow> nat \<Rightarrow> face_map \<Rightarrow> face_map" where
  "add_element b i_elem faces =
     fold (\<lambda>ordinal. add_face (corner_nodes (conn b) (i_elem * num_node_per_elem b) ordinal,
                                elem_global_ids b ! i_elem + 1, ordinal))
          [0..<6] faces"

definition add_block :: "Block \<Rightarrow> face_map \<Rightarrow> face_map" where
  "add_block b faces = fold (add_element b) [0..<num_elem_in_block b] faces"

text \<open>
  The entity id of a skin face, lines 949-954, in 32-bit arithmetic:
  \<^verbatim>\<open>(face.second[5] + entity_id_offset) << 5 | face.second[6] << 2 | 0\<close>.
\<close>

definition skin_entity_id :: "int \<Rightarrow> int list \<Rightarrow> 32 word" where
  "skin_entity_id entity_id_offset v =
     push_bit 5 (word_of_int (v ! 5 + entity_id_offset)) OR push_bit 2 (word_of_int (v ! 6)) OR 0"

definition skin_face :: "int list \<Rightarrow> int list" where
  "skin_face v = map (\<lambda>i. v ! (i + 1)) [0..<length v - 3]"

fun emit_skin :: "int \<Rightarrow> face_map \<Rightarrow> int list list \<times> 32 word list
                  \<Rightarrow> error + (int list list \<times> 32 word list)" where
  "emit_skin off [] acc = Inr acc"
| "emit_skin off ((k, v) # faces) (skin_faces, entity_ids) =
     (if v ! 0 = 1 then
        emit_skin off faces (skin_faces @ [skin_face v], entity_ids @ [skin_entity_id off v])
      else if v ! 0 \<noteq> 2 then Inl Abort
      else emit_skin off faces (skin_faces, entity_ids))"

definition SkinBlocks :: "GenesisMesh \<Rightarrow> int list \<Rightarrow> int
                          \<Rightarrow> error + (int list list \<times> 32 word list)" where
  "SkinBlocks mesh block_ids entity_id_offset =
     emit_skin entity_id_offset (fold (\<lambda>block_id. add_block (block mesh block_id)) block_ids [])
               ([], [])"

text \<open>
  The occurrences that the claims about skinning speak of: every face of every element of
  every requested block, in the order of the loops, each with its unsorted node list, the
  1-based global id of its element and its face ordinal.
\<close>

definition element_faces :: "Block \<Rightarrow> nat \<Rightarrow> (int list \<times> int \<times> nat) list" where
  "element_faces b i_elem =
     map (\<lambda>ordinal. (corner_nodes (conn b) (i_elem * num_node_per_elem b) ordinal,
                      elem_global_ids b ! i_elem + 1, ordinal))
         [0..<6]"

definition block_faces :: "Block \<Rightarrow> (int list \<times> int \<times> nat) list" where
  "block_faces b = concat (map (element_faces b) [0..<num_elem_in_block b])"

definition all_faces :: "GenesisMesh \<Rightarrow> int list \<Rightarrow> (int list \<times> int \<times> nat) list" where
  "all_faces mesh block_ids = concat (map (\<lambda>block_id. block_faces (block mesh block_id)) block_ids)"

definition occurrences :: "(int list \<times> int \<times> nat) list \<Rightarrow> int list \<Rightarrow> nat" where
  "occurrences fs k = length (filter (\<lambda>f. face_key f = k) fs)"

text \<open>The faces whose key occurs exactly once, in the order of their keys.\<close>

definition skin_occurrences :: "(int list \<times> int \<times> nat) list \<Rightarrow> (int list \<times> int \<times> nat) list" where
  "skin_occurrences fs = sort_key face_key (filter (\<lambda>f. occurrences fs (face_key f) = 1) fs)"

text \<open>
  The packed integer as the spec writes it, an integer of 59 + 3 + 2 bits:
  \<open>(element_global_id_1_based + offset) << 5 | (face_ordinal & 0x7) << 2 | (triangle_ordinal & 0x3)\<close>.
  No id of a mesh whose element ids fit an \<^verbatim>\<open>int\<close> needs more than the 59 bits, so the
  integers of HOL stand for it.
\<close>

definition packed_integer :: "int \<Rightarrow> int \<Rightarrow> int \<Rightarrow> int" where
  "packed_integer element_plus_offset face_ordinal triangle_ordinal =
     push_bit 5 element_plus_offset OR push_bit 2 (face_ordinal AND 7) OR (triangle_ordinal AND 3)"

text \<open>
  The same shifts and masks in the 32-bit arithmetic of the code's \<^verbatim>\<open>int entity_id\<close>: the
  value that lines 949-954 and the \<^verbatim>\<open>entity_id |= t\<close> of the triangulation (lines 1138,
  1161, 1184, 1207) leave in the id.
\<close>

definition packed_entity_id :: "int \<Rightarrow> int \<Rightarrow> int \<Rightarrow> 32 word" where
  "packed_entity_id element_plus_offset face_ordinal triangle_ordinal =
     push_bit 5 (word_of_int element_plus_offset)
     OR push_bit 2 (word_of_int face_ordinal AND 7)
     OR (word_of_int triangle_ordinal AND 3)"

text \<open>A mesh of one block (id 1) with a single hexahedron on the nodes 0..7.\<close>

definition one_hex :: GenesisMesh where
  "one_hex = \<lparr>block = (\<lambda>_. \<lparr>num_elem_in_block = 1, num_node_per_elem = 8,
                                conn = [0, 1, 2, 3, 4, 5, 6, 7], elem_global_ids = [0]\<rparr>),
              node_global_ids = (\<lambda>n. n)\<rparr>"

text \<open>Two hexahedra that share the face on the nodes 4..7.\<close>

definition two_hex :: GenesisMesh where
  "two_hex = \<lparr>block = (\<lambda>_. \<lparr>num_elem_in_block = 2, num_node_per_elem = 8,
                                conn = [0, 1, 2, 3, 4, 5, 6, 7, 4, 5, 6, 7, 8, 9, 10, 11],
                                elem_global_ids = [0, 1]\<rparr>),
              node_global_ids = (\<lambda>n. n)\<rparr>"

text \<open>A small submodel used to run the two functions: mesh nodes 2 and 0.\<close>

definition example_manager :: ContactManager where
  "example_manager =
     \<lparr>node_ids = [2, 0], model_coord = [1, 2, 3, 4, 5, 6], coord = [0, 0, 0, 0, 0, 0],
      force = [10, 20, 30, 40, 50, 60], contact_faces = [],
      contact_nodes =
        [\<lparr>entity_type = NODE, contact_entity_global_id = 1, local_id = 0,
          coord_1 = (0, 0, 0), coord_2 = (0, 0, 0), coord_3 = (0, 0, 0), char_len = 1,
          node_id_for_node_1 = 1, node_id_for_node_2 = 0,
          node_ids_for_fictitious_node = []\<rparr>]\<rparr>"

text \<open>
  The entry that the map of \<^verbatim>\<open>SkinBlocks\<close> holds under the key \<open>k\<close> once the faces
  \<open>fs\<close> have been recorded: the value vector of the first face with that key, with the
  number of faces with that key as its count.
\<close>

definition entry :: "(int list \<times> int \<times> nat) list \<Rightarrow> int list \<Rightarrow> int list" where
  "entry fs k = (face_value (hd (filter (\<lambda>f. face_key f = k) fs)))[0 := int (occurrences fs k)]"

section \<open>Contact entities of the submodel\<close>

text \<open>\<^verbatim>\<open>std::numeric_limits<double>::lowest()\<close>, the start value of both edge loops.\<close>

definition lowest :: real where
  "lowest = - ((2 - 1 / 2 ^ 52) * 2 ^ 1023)"

definition edge_length_square :: "real list \<Rightarrow> int \<Rightarrow> int \<Rightarrow> real" where
  "edge_length_square c node_id_1 node_id_2 =
     (vec_at c (3 * node_id_2) - vec_at c (3 * node_id_1))
       * (vec_at c (3 * node_id_2) - vec_at c (3 * node_id_1))
     + (vec_at c (3 * node_id_2 + 1) - vec_at c (3 * node_id_1 + 1))
       * (vec_at c (3 * node_id_2 + 1) - vec_at c (3 * node_id_1 + 1))
     + (vec_at c (3 * node_id_2 + 2) - vec_at c (3 * node_id_1 + 2))
       * (vec_at c (3 * node_id_2 + 2) - vec_at c (3 * node_id_1 + 2))"

text \<open>
  The second node of edge \<open>i\<close>: \<^verbatim>\<open>node_id_2 = face[0]; if (i + 1 < num_nodes_in_face)
  node_id_2 = face[i + 1]\<close>.
\<close>

definition edge_end :: "int list \<Rightarrow> nat \<Rightarrow> int" where
  "edge_end face i = (if i + 1 < length face then face ! (i + 1) else face ! 0)"

text \<open>Lines 311-323 (secondary faces): the largest squared edge length.\<close>

definition max_edge_length_square :: "real list \<Rightarrow> int list \<Rightarrow> real" where
  "max_edge_length_square c face =
     fold (\<lambda>i m. let edge_length_square = edge_length_square c (face ! i) (edge_end face i)
                  in if edge_length_square > m then edge_length_square else m)
          [0..<length face] lowest"

text \<open>Lines 1093-1105 (primary faces): the largest edge length.\<close>

definition max_edge_length :: "real list \<Rightarrow> int list \<Rightarrow> real" where
  "max_edge_length c face =
     fold (\<lambda>i m. let edge_length = sqrt (edge_length_square c (face ! i) (edge_end face i))
                  in if edge_length > m then edge_length else m)
          [0..<length face] lowest"

text \<open>
  The longest edge of a face as the spec words it: the largest Euclidean length among the
  edges from node \<open>i\<close> to node \<open>i + 1\<close>, the last edge going back to node 0.
\<close>

definition longest_edge :: "real list \<Rightarrow> int list \<Rightarrow> real" where
  "longest_edge c face =
     Max ((\<lambda>i. sqrt (edge_length_square c (face ! i) (face ! ((i + 1) mod length face))))
          ` {..<length face})"

text \<open>Lines 1109-1114: the node at the barycenter of the face.\<close>

definition fictitious_node :: "real list \<Rightarrow> int list \<Rightarrow> vec3" where
  "fictitious_node c face =
     (let s = (\<lambda>j. fold (\<lambda>i a. a + vec_at c (3 * (face ! i) + j)) [0..<length face] 0);
          num_nodes_in_face = real (length face)
      in (s 0 / num_nodes_in_face, s 1 / num_nodes_in_face, s 2 / num_nodes_in_face))"

text \<open>
  Modelled from the spec: the two ways the constructor of \<^verbatim>\<open>ContactEntity\<close> (in the
  missing header) is called. A triangle gets three vertices from \<^verbatim>\<open>model_coord[9]\<close>, its
  two real nodes and the four nodes behind its barycenter vertex; a node gets one vertex
  and its mesh node.
\<close>

definition triangle_entity :: "32 word \<Rightarrow> nat \<Rightarrow> vec3 \<times> vec3 \<times> vec3 \<Rightarrow> real \<Rightarrow> int \<Rightarrow> int
                               \<Rightarrow> int list \<Rightarrow> ContactEntity" where
  "triangle_entity entity_id index mc characteristic_length node_id_1 node_id_2 fict =
     \<lparr>entity_type = TRIANGLE, contact_entity_global_id = entity_id, local_id = index,
      coord_1 = fst mc, coord_2 = fst (snd mc), coord_3 = snd (snd mc),
      char_len = characteristic_length, node_id_for_node_1 = node_id_1,
      node_id_for_node_2 = node_id_2, node_ids_for_fictitious_node = fict\<rparr>"

definition node_entity :: "32 word \<Rightarrow> nat \<Rightarrow> vec3 \<Rightarrow> real \<Rightarrow> int \<Rightarrow> ContactEntity" where
  "node_entity entity_id index mc characteristic_length node_id =
     \<lparr>entity_type = NODE, contact_entity_global_id = entity_id, local_id = index,
      coord_1 = mc, coord_2 = (0, 0, 0), coord_3 = (0, 0, 0),
      char_len = characteristic_length, node_id_for_node_1 = node_id,
      node_id_for_node_2 = 0, node_ids_for_fictitious_node = []\<rparr>"

text \<open>
  One of the four blocks of lines 1127-1217: the triangle on the face nodes \<open>a\<close> and \<open>b\<close>
  and the fictitious node, with the triangle ordinal or-ed into the entity id of the face.
\<close>

definition face_triangle :: "real list \<Rightarrow> int list \<Rightarrow> 32 word \<Rightarrow> nat \<Rightarrow> nat \<Rightarrow> nat \<Rightarrow> nat
                             \<Rightarrow> ContactEntity" where
  "face_triangle c face face_entity_id ordinal a b index =
     (let node_id_1 = face ! a; node_id_2 = face ! b;
          entity_id = face_entity_id OR word_of_nat ordinal
      in triangle_entity entity_id index
           (triple_at c node_id_1, triple_at c node_id_2, fictitious_node c face)
           (max_edge_length c face) node_id_1 node_id_2 (map (\<lambda>i. face ! i) [0..<4]))"

definition convert_face :: "real list \<Rightarrow> int list \<Rightarrow> 32 word \<Rightarrow> ContactEntity list \<times> nat
                            \<Rightarrow> error + (ContactEntity list \<times> nat)" where
  "convert_face c face face_entity_id st =
     (case st of (cfaces, index) \<Rightarrow>
        if length face \<noteq> 4 then Inl Abort
        else
          let cfaces = cfaces[index := face_triangle c face face_entity_id 0 0 1 index];
              index = index + 1;
              cfaces = cfaces[index := face_triangle c face face_entity_id 1 1 2 index];
              index = index + 1;
              cfaces = cfaces[index := face_triangle c face face_entity_id 2 2 3 index];
              index = index + 1;
              cfaces = cfaces[index := face_triangle c face face_entity_id 3 3 0 index];
              index = index + 1
          in Inr (cfaces, index))"

fun primary_loop :: "real list \<Rightarrow> int list list \<Rightarrow> 32 word list \<Rightarrow> nat list
                     \<Rightarrow> ContactEntity list \<times> nat \<Rightarrow> error + (ContactEntity list \<times> nat)" where
  "primary_loop c faces ids [] st = Inr st"
| "primary_loop c faces ids (i_face # rest) st =
     (case convert_face c (faces ! i_face) (ids ! i_face) st of
        Inl e \<Rightarrow> Inl e
      | Inr st' \<Rightarrow> primary_loop c faces ids rest st')"

text \<open>
  Lines 1221-1229. The three \<^verbatim>\<open>.at()\<close> calls throw \<^verbatim>\<open>std::out_of_range\<close>; the first
  cannot, since \<open>i_node\<close> is below the size of \<open>secondary_node_ids\<close>.
\<close>

fun secondary_loop :: "real list \<Rightarrow> int list \<Rightarrow> 32 word list \<Rightarrow> (int \<rightharpoonup> real) \<Rightarrow> nat list
                       \<Rightarrow> ContactEntity list \<Rightarrow> error + ContactEntity list" where
  "secondary_loop c sec_ids sec_entity_ids sec_char_lens [] cnodes = Inr cnodes"
| "secondary_loop c sec_ids sec_entity_ids sec_char_lens (i_node # rest) cnodes =
     (let node_id = sec_ids ! i_node in
      if length sec_entity_ids \<le> i_node then Inl OutOfRange
      else case sec_char_lens node_id of
        None \<Rightarrow> Inl OutOfRange
      | Some characteristic_length \<Rightarrow>
          secondary_loop c sec_ids sec_entity_ids sec_char_lens rest
            (cnodes[i_node := node_entity (sec_entity_ids ! i_node) i_node
                                       (triple_at c node_id) characteristic_length node_id]))"

definition CreateContactNodesAndFaces ::
  "real list \<Rightarrow> int list list \<Rightarrow> 32 word list \<Rightarrow> int list \<Rightarrow> 32 word list \<Rightarrow> (int \<rightharpoonup> real)
   \<Rightarrow> ContactEntity list \<Rightarrow> ContactEntity list
   \<Rightarrow> error + (ContactEntity list \<times> ContactEntity list)" where
  "CreateContactNodesAndFaces c primary_skin_faces primary_skin_entity_ids secondary_node_ids
       secondary_node_entity_ids secondary_node_char_lens cnodes cfaces =
     (case primary_loop c primary_skin_faces primary_skin_entity_ids
             [0..<length primary_skin_faces] (cfaces, 0) of
        Inl e \<Rightarrow> Inl e
      | Inr (cfaces', index) \<Rightarrow>
          (case secondary_loop c secondary_node_ids secondary_node_entity_ids
                  secondary_node_char_lens [0..<length secondary_node_ids] cnodes of
             Inl e \<Rightarrow> Inl e
           | Inr cnodes' \<Rightarrow> Inr (cnodes', cfaces')))"

text \<open>
  Lines 302-346 of \<^verbatim>\<open>CreateContactEntities\<close>: the nodes of the secondary skin faces,
  their entity ids and their characteristic lengths. \<open>gids\<close> is
  \<^verbatim>\<open>genesis_node_global_ids\<close>, \<open>ids\<close> is \<^verbatim>\<open>node_ids_\<close>, \<open>ghosted\<close> is
  \<^verbatim>\<open>ghosted_contact_node_ids\<close>. On a \<^verbatim>\<open>std::map\<close>, \<^verbatim>\<open>operator[]\<close> inserts 0.0 under
  a key that is missing.
\<close>

record secondary =
  secondary_node_ids :: "int list"
  secondary_node_entity_ids :: "32 word list"
  secondary_node_char_lens :: "int \<rightharpoonup> real"

definition visit_node :: "(int \<Rightarrow> int) \<Rightarrow> int list \<Rightarrow> int list \<Rightarrow> real \<Rightarrow> int
                          \<Rightarrow> secondary \<Rightarrow> secondary" where
  "visit_node gids ids ghosted characteristic_length node_id st =
     (if node_id \<notin> set ghosted then
        if node_id \<notin> set (secondary_node_ids st) then
          st\<lparr>secondary_node_ids := secondary_node_ids st @ [node_id],
             secondary_node_entity_ids :=
               secondary_node_entity_ids st @ [word_of_int (gids (vec_at ids node_id) + 1)],
             secondary_node_char_lens := (secondary_node_char_lens st)(node_id \<mapsto> characteristic_length)\<rparr>
        else
          (case secondary_node_char_lens st node_id of
             Some l \<Rightarrow>
               if l < characteristic_length
               then st\<lparr>secondary_node_char_lens :=
                         (secondary_node_char_lens st)(node_id \<mapsto> characteristic_length)\<rparr>
               else st
           | None \<Rightarrow>
               st\<lparr>secondary_node_char_lens :=
                    (secondary_node_char_lens st)
                      (node_id \<mapsto> (if 0 < characteristic_length then characteristic_length else 0))\<rparr>)
      else st)"

definition visit_face :: "real list \<Rightarrow> (int \<Rightarrow> int) \<Rightarrow> int list \<Rightarrow> int list \<Rightarrow> int list
                          \<Rightarrow> secondary \<Rightarrow> secondary" where
  "visit_face c gids ids ghosted face st =
     (let characteristic_length = sqrt (max_edge_length_square c face)
      in fold (\<lambda>i_node. visit_node gids ids ghosted characteristic_length (face ! i_node))
              [0..<length face] st)"

definition secondary_nodes :: "real list \<Rightarrow> (int \<Rightarrow> int) \<Rightarrow> int list \<Rightarrow> int list \<Rightarrow> int list list
                               \<Rightarrow> secondary" where
  "secondary_nodes c gids ids ghosted secondary_skin_faces =
     fold (visit_face c gids ids ghosted) secondary_skin_faces
          \<lparr>secondary_node_ids = [], secondary_node_entity_ids = [],
           secondary_node_char_lens = Map.empty\<rparr>"

text \<open>
  A flat square of side 2 on the local nodes 0..3, a second square beside it on the nodes
  1, 4, 5, 2 (4 by 2), and the coordinates of the six nodes.
\<close>

definition square_coord :: "real list" where
  "square_coord = [0, 0, 0,  2, 0, 0,  2, 2, 0,  0, 2, 0,  6, 0, 0,  6, 2, 0]"

text \<open>The barycenter of a face as the spec words it: the mean of its node coordinates.\<close>

definition barycenter :: "real list \<Rightarrow> int list \<Rightarrow> vec3" where
  "barycenter c face =
     (let m = (\<lambda>j. (\<Sum>i<length face. vec_at c (3 * (face ! i) + j)) / real (length face))
      in (m 0, m 1, m 2))"

text \<open>An entity as \<^verbatim>\<open>resize\<close> leaves it before \<^verbatim>\<open>CreateContactNodesAndFaces\<close> fills it in.\<close>

definition blank_entity :: ContactEntity where
  "blank_entity =
     \<lparr>entity_type = NODE, contact_entity_global_id = 0, local_id = 0,
      coord_1 = (0, 0, 0), coord_2 = (0, 0, 0), coord_3 = (0, 0, 0), char_len = 0,
      node_id_for_node_1 = 0, node_id_for_node_2 = 0, node_ids_for_fictitious_node = []\<rparr>"

text \<open>
  The visits of the loops of lines 308-346 in their order: every node of every secondary
  face, with the characteristic length of that face.
\<close>

definition face_visits :: "real list \<Rightarrow> int list list \<Rightarrow> (int \<times> real) list" where
  "face_visits c faces =
     concat (map (\<lambda>face. map (\<lambda>n. (n, sqrt (max_edge_length_square c face))) face) faces)"

text \<open>
  Two hexahedra that share no node, with the element global ids 0 and \<open>2\<^sup>2\<^sup>7\<close>; the
  largest node global id of the mesh is 15.
\<close>

definition far_hexes :: GenesisMesh where
  "far_hexes = \<lparr>block = (\<lambda>_. \<lparr>num_elem_in_block = 2, num_node_per_elem = 8,
                                  conn = [0, 1, 2, 3, 4, 5, 6, 7, 8, 9, 10, 11, 12, 13, 14, 15],
                                  elem_global_ids = [0, 134217728]\<rparr>),
                node_global_ids = (\<lambda>n. n)\<rparr>"

section \<open>Removal of skin faces on partition boundaries\<close>

text \<open>
  \<^verbatim>\<open>RemoveInternalSkinFaces\<close>, lines 963-1066. The MPI exchange is outside the function:
  \<open>received\<close> holds the buffers that the rounds \<open>shift = 1, ..., num_ranks - 1\<close> receive, in
  that order (none on one rank, and none in a build without MPI, where the body is
  compiled out).
\<close>

definition INT_MAX :: int where
  "INT_MAX = 2147483647"

text \<open>Lines 982-984: the global ids of the nodes of a face, sorted.\<close>

definition sorted_global_ids :: "(int \<Rightarrow> int) \<Rightarrow> int list \<Rightarrow> int list" where
  "sorted_global_ids gids face =
     sort (fold (\<lambda>ii fvec. fvec[ii := gids (face ! ii)]) [0..<length face]
                [INT_MAX, INT_MAX, INT_MAX, INT_MAX])"

text \<open>Lines 979-987: \<^verbatim>\<open>emplace\<close> keeps the entry that is there.\<close>

definition build_faceList :: "(int \<Rightarrow> int) \<Rightarrow> int list list \<Rightarrow> (int list \<rightharpoonup> nat)" where
  "build_faceList gids faces =
     fold (\<lambda>iface m. let fvec = sorted_global_ids gids (faces ! iface)
                      in if m fvec = None then m(fvec \<mapsto> iface) else m)
          [0..<length faces] Map.empty"

record removal =
  remove_face_hash :: "bool list"
  remove_entity_ids_hash :: "bool list"
  iCountRemovals :: nat

text \<open>Lines 1029-1039, for the face \<open>i_mpi_buff_face\<close> of a received buffer.\<close>

definition check_buffer_face :: "(int list \<rightharpoonup> nat) \<Rightarrow> int list \<Rightarrow> nat \<Rightarrow> removal \<Rightarrow> removal" where
  "check_buffer_face faceList mpi_buffer i_mpi_buff_face r =
     (let tmpList = take 4 (drop (i_mpi_buff_face * 4) mpi_buffer)
      in case faceList tmpList of
           None \<Rightarrow> r
         | Some iface \<Rightarrow>
             r\<lparr>remove_face_hash := (remove_face_hash r)[iface := True],
               remove_entity_ids_hash := (remove_entity_ids_hash r)[iface := True],
               iCountRemovals := iCountRemovals r + 1\<rparr>)"

definition check_buffer :: "(int list \<rightharpoonup> nat) \<Rightarrow> int list \<Rightarrow> removal \<Rightarrow> removal" where
  "check_buffer faceList mpi_buffer r =
     fold (check_buffer_face faceList mpi_buffer) [0..<length mpi_buffer div 4] r"

definition removal_marks :: "(int \<Rightarrow> int) \<Rightarrow> int list list \<Rightarrow> int list list \<Rightarrow> 32 word list
                             \<Rightarrow> removal" where
  "removal_marks gids received faces entity_ids =
     fold (check_buffer (build_faceList gids faces)) received
          \<lparr>remove_face_hash = replicate (length faces) False,
           remove_entity_ids_hash = replicate (length entity_ids) False,
           iCountRemovals = 0\<rparr>"

definition RemoveInternalSkinFaces :: "(int \<Rightarrow> int) \<Rightarrow> int list list \<Rightarrow> int list list
                                       \<Rightarrow> 32 word list \<Rightarrow> int list list \<times> 32 word list" where
  "RemoveInternalSkinFaces gids received faces entity_ids =
     (let r = removal_marks gids received faces entity_ids
      in if iCountRemovals r = 0 then (faces, entity_ids)
         else (map (\<lambda>i. faces ! i) (filter (\<lambda>i. \<not> remove_face_hash r ! i) [0..<length faces]),
               map (\<lambda>i. entity_ids ! i)
                   (filter (\<lambda>i. \<not> remove_entity_ids_hash r ! i) [0..<length entity_ids])))"

text \<open>The quadruples that the received buffers hold.\<close>

definition received_quads :: "int list list \<Rightarrow> int list set" where
  "received_quads received =
     (\<Union>mpi_buffer \<in> set received.
        (\<lambda>i. take 4 (drop (i * 4) mpi_buffer)) ` {..<length mpi_buffer div 4})"

text \<open>
  The body of \<^verbatim>\<open>check_buffer_face\<close> for one received quadruple, and the quadruples of all
  received buffers in the order in which the loops visit them.
\<close>

definition mark :: "(int list \<rightharpoonup> nat) \<Rightarrow> int list \<Rightarrow> removal \<Rightarrow> removal" where
  "mark faceList q r = (case faceList q of None \<Rightarrow> r
      | Some iface \<Rightarrow> r\<lparr>remove_face_hash := (remove_face_hash r)[iface := True],
               remove_entity_ids_hash := (remove_entity_ids_hash r)[iface := True],
               iCountRemovals := iCountRemovals r + 1\<rparr>)"

definition quad_list :: "int list list \<Rightarrow> int list list" where
  "quad_list received = concat (map (\<lambda>b. map (\<lambda>i. take 4 (drop (i * 4) b)) [0..<length b div 4]) received)"

section \<open>Geometric projection kernel\<close>

text \<open>
  Vectors of three doubles. Modelled from the spec: \<^verbatim>\<open>CrossProduct\<close> (declared in
  \<^verbatim>\<open>nimble_utils.h\<close>, not part of the sources at hand), the vector product \<open>u \<times> v\<close>.
\<close>

definition sub3 :: "vec3 \<Rightarrow> vec3 \<Rightarrow> vec3" where
  "sub3 a b = (case a of (a0, a1, a2) \<Rightarrow> case b of (b0, b1, b2) \<Rightarrow> (a0 - b0, a1 - b1, a2 - b2))"

definition dot3 :: "vec3 \<Rightarrow> vec3 \<Rightarrow> real" where
  "dot3 a b = (case a of (a0, a1, a2) \<Rightarrow> case b of (b0, b1, b2) \<Rightarrow> a0 * b0 + a1 * b1 + a2 * b2)"


definition CrossProduct :: "vec3 \<Rightarrow> vec3 \<Rightarrow> vec3" where
  "CrossProduct u v =
     (case u of (u0, u1, u2) \<Rightarrow> case v of (v0, v1, v2) \<Rightarrow>
        (u1 * v2 - u2 * v1, u2 * v0 - u0 * v2, u0 * v1 - u1 * v0))"

text \<open>\<open>alpha * p1 + beta * p2 + gamma * p3\<close>, component by component.\<close>

definition combine3 :: "real \<Rightarrow> real \<Rightarrow> real \<Rightarrow> vec3 \<Rightarrow> vec3 \<Rightarrow> vec3 \<Rightarrow> vec3" where
  "combine3 alpha beta gamma p1 p2 p3 =
     (case p1 of (x1, y1, z1) \<Rightarrow> case p2 of (x2, y2, z2) \<Rightarrow> case p3 of (x3, y3, z3) \<Rightarrow>
        (alpha * x1 + beta * x2 + gamma * x3,
         alpha * y1 + beta * y2 + gamma * y3,
         alpha * z1 + beta * z2 + gamma * z3))"

text \<open>
  The part that the three projection functions share (lines 1376-1393, 1544-1559,
  1627-1642): the normal \<open>n = u \<times> v\<close>, its squared length, and the two quotients that the
  source calls \<open>beta\<close> and \<open>gamma\<close>, or \<open>alpha2\<close> and \<open>alpha3\<close>. For a degenerate triangle
  \<open>n_squared\<close> is 0 and both quotients are 0/0, a NaN: the comparisons below are then
  false, which the tests \<open>n_squared \<noteq> 0\<close> write out.
\<close>

definition normal_vector :: "vec3 \<Rightarrow> vec3 \<Rightarrow> vec3 \<Rightarrow> vec3" where
  "normal_vector p1 p2 p3 = CrossProduct (sub3 p2 p1) (sub3 p3 p1)"

definition weight_2 :: "vec3 \<Rightarrow> vec3 \<Rightarrow> vec3 \<Rightarrow> vec3 \<Rightarrow> real" where
  "weight_2 p p1 p2 p3 =
     (let u = sub3 p2 p1; v = sub3 p3 p1; w = sub3 p p1; n = CrossProduct u v;
          n_squared = dot3 n n
      in dot3 (CrossProduct w v) n / n_squared)"

definition weight_3 :: "vec3 \<Rightarrow> vec3 \<Rightarrow> vec3 \<Rightarrow> vec3 \<Rightarrow> real" where
  "weight_3 p p1 p2 p3 =
     (let u = sub3 p2 p1; v = sub3 p3 p1; w = sub3 p p1; n = CrossProduct u v;
          n_squared = dot3 n n
      in dot3 (CrossProduct u w) n / n_squared)"

text \<open>
  The double operations on the constant \<^verbatim>\<open>1.0\<close>: \<^verbatim>\<open>1.0 - alpha2 - alpha3\<close> and
  \<^verbatim>\<open>1.0 + tol\<close>, lines 1560, 1562, 1643 and 1645. Coordinates and weights are real
  numbers here and the arithmetic on coordinates is exact; these sums and differences
  are rounded as IEEE 754 binary64 arithmetic rounds them, to the nearest double with
  ties to the even significand, because they absorb a small operand and the outcome of
  the test \<^verbatim>\<open>alpha1 < tol2\<close> depends on it: for a tolerance of \<^verbatim>\<open>1e-16\<close> the rounded sum is
  1, and a weight of 1 fails the test.
  \<open>floor_log2 n\<close> is the position of the leading bit of \<open>n\<close>; \<open>binade x\<close> is the exponent
  \<open>e\<close> with \<^verbatim>\<open>2^e <= |x| < 2^(e+1)\<close>; doubles of that size are spaced \<^verbatim>\<open>2^(e-52)\<close> apart,
  and \<^verbatim>\<open>2^-1074\<close> apart below \<^verbatim>\<open>2^-1022\<close>. A finite \<open>tol\<close> never makes the sum overflow.
\<close>

function floor_log2 :: "int \<Rightarrow> int" where
  "floor_log2 n = (if n < 2 then 0 else 1 + floor_log2 (n div 2))"
  by pat_completeness auto
termination
  by (relation "measure nat") auto

declare floor_log2.simps [simp del]

definition binade :: "real \<Rightarrow> int" where
  "binade x = (if 1 \<le> \<bar>x\<bar> then floor_log2 \<lfloor>\<bar>x\<bar>\<rfloor>
               else - floor_log2 (\<lceil>1 / \<bar>x\<bar>\<rceil> - 1) - 1)"

definition round_half_even :: "real \<Rightarrow> int" where
  "round_half_even x =
     (let f = \<lfloor>x\<rfloor>; d = x - of_int f
      in if d < 1 / 2 then f else if 1 / 2 < d then f + 1 else if even f then f else f + 1)"

definition round_double :: "real \<Rightarrow> real" where
  "round_double x =
     (if x = 0 then 0
      else let e = max (binade x) (- 1022); ulp = 2 powi (e - 52)
           in of_int (round_half_even (x / ulp)) * ulp)"

definition double_add :: "real \<Rightarrow> real \<Rightarrow> real" where
  "double_add a b = round_double (a + b)"





text \<open>
  Modelled from the spec: \<^verbatim>\<open>PointEdgeClosestPointFindT\<close> and
  \<^verbatim>\<open>PointEdgeClosestPointFindDistanceSquared\<close> (declared in \<^verbatim>\<open>nimble_utils.h\<close>, not
  part of the sources at hand): the parameter of the foot of the perpendicular from \<open>p\<close>
  on the line through \<open>p1\<close> and \<open>p2\<close>, and the squared distance from \<open>p\<close> to the point of
  parameter \<open>t\<close>. For an edge of length 0 the parameter is 0/0, a NaN, which fails the
  test \<open>t > 0\<close> as the 0 of HOL does.
\<close>

definition PointEdgeClosestPointFindT :: "vec3 \<Rightarrow> vec3 \<Rightarrow> vec3 \<Rightarrow> real" where
  "PointEdgeClosestPointFindT p1 p2 p =
     dot3 (sub3 p p1) (sub3 p2 p1) / dot3 (sub3 p2 p1) (sub3 p2 p1)"

definition edge_point :: "vec3 \<Rightarrow> vec3 \<Rightarrow> real \<Rightarrow> vec3" where
  "edge_point p1 p2 t =
     (case p1 of (x1, y1, z1) \<Rightarrow> case p2 of (x2, y2, z2) \<Rightarrow>
        (x1 + (x2 - x1) * t, y1 + (y2 - y1) * t, z1 + (z2 - z1) * t))"

definition PointEdgeClosestPointFindDistanceSquared :: "vec3 \<Rightarrow> vec3 \<Rightarrow> vec3 \<Rightarrow> real \<Rightarrow> real" where
  "PointEdgeClosestPointFindDistanceSquared p1 p2 p t =
     dot3 (sub3 (edge_point p1 p2 t) p) (sub3 (edge_point p1 p2 t) p)"

text \<open>
  \<^verbatim>\<open>ClosestPointProjectionSingle\<close>, lines 1348-1512, with the sum \<^verbatim>\<open>1.0 + tol\<close> of lines
  1399-1407 as the sum of real numbers. The fallback threads
  \<open>(min_distance_squared, min_distance_squared_t, min_case)\<close> through the two vertex tests
  and the three edge tests; \<open>min_distance_squared_t\<close> is not initialised in the source and
  is read only after an edge test has set it.
\<close>

definition try_vertex :: "vec3 \<Rightarrow> vec3 \<Rightarrow> nat \<Rightarrow> real \<times> real \<times> nat \<Rightarrow> real \<times> real \<times> nat" where
  "try_vertex p q k st =
     (case st of (min_distance_squared, min_distance_squared_t, min_case) \<Rightarrow>
        let distance_squared = dot3 (sub3 q p) (sub3 q p)
        in if distance_squared < min_distance_squared
           then (distance_squared, min_distance_squared_t, k) else st)"

definition try_edge :: "vec3 \<Rightarrow> vec3 \<Rightarrow> vec3 \<Rightarrow> nat \<Rightarrow> real \<times> real \<times> nat \<Rightarrow> real \<times> real \<times> nat" where
  "try_edge p a b k st =
     (case st of (min_distance_squared, min_distance_squared_t, min_case) \<Rightarrow>
        let t = PointEdgeClosestPointFindT a b p
        in if t > 0 \<and> t < 1 then
             let distance_squared = PointEdgeClosestPointFindDistanceSquared a b p t
             in if distance_squared < min_distance_squared then (distance_squared, t, k) else st
           else st)"

definition case_point :: "vec3 \<Rightarrow> vec3 \<Rightarrow> vec3 \<Rightarrow> real \<times> real \<times> nat \<Rightarrow> vec3" where
  "case_point p1 p2 p3 st =
     (case st of (min_distance_squared, min_distance_squared_t, min_case) \<Rightarrow>
        if min_case = 2 then p2
        else if min_case = 3 then p3
        else if min_case = 4 then edge_point p1 p2 min_distance_squared_t
        else if min_case = 5 then edge_point p2 p3 min_distance_squared_t
        else if min_case = 6 then edge_point p3 p1 min_distance_squared_t
        else p1)"

definition ClosestPointProjectionSingle ::
  "ContactEntity \<Rightarrow> ContactEntity \<Rightarrow> real \<Rightarrow> vec3 \<times> PROJECTION_TYPE" where
  "ClosestPointProjectionSingle node tri tol =
     (let p = coord_1 node; p1 = coord_1 tri; p2 = coord_2 tri; p3 = coord_3 tri;
          n = normal_vector p1 p2 p3;
          n_squared = dot3 n n;
          gamma = weight_3 p p1 p2 p3;
          beta = weight_2 p p1 p2 p3;
          alpha = 1 - gamma - beta;
          alpha_is_zero = (n_squared \<noteq> 0 \<and> alpha > - tol \<and> alpha < tol);
          alpha_in_range = (n_squared \<noteq> 0 \<and> alpha > - tol \<and> alpha < 1 + tol);
          beta_is_zero = (n_squared \<noteq> 0 \<and> beta > - tol \<and> beta < tol);
          beta_in_range = (n_squared \<noteq> 0 \<and> beta > - tol \<and> beta < 1 + tol);
          gamma_is_zero = (n_squared \<noteq> 0 \<and> gamma > - tol \<and> gamma < tol);
          gamma_in_range = (n_squared \<noteq> 0 \<and> gamma > - tol \<and> gamma < 1 + tol)
      in if alpha_in_range \<and> beta_in_range \<and> gamma_in_range then
           (combine3 alpha beta gamma p1 p2 p3,
            if alpha_is_zero \<or> beta_is_zero \<or> gamma_is_zero then NODE_OR_EDGE else FACE)
         else
           let st = (dot3 (sub3 p1 p) (sub3 p1 p), 0, 1);
               st = try_vertex p p2 2 st;
               st = try_vertex p p3 3 st;
               st = try_edge p p1 p2 4 st;
               st = try_edge p p2 p3 5 st;
               st = try_edge p p3 p1 6 st
           in (case_point p1 p2 p3 st, NODE_OR_EDGE))"








section \<open>Properties of displacement application and force gathering\<close>

lemma upt_3: "[0..<3] = [0, 1, 2]"
  by (simp add: upt_rec)

lemma get_node_apply:
  "get_node ids f i cf k =
     (if k = 3 * (ids ! i) + 2 then f ! (3 * i + 2)
      else if k = 3 * (ids ! i) + 1 then f ! (3 * i + 1)
      else if k = 3 * (ids ! i) then f ! (3 * i)
      else cf k)"
  by (simp add: get_node_def upt_3)

lemma fold_get_node_other:
  "\<forall>i \<in> set is. k \<noteq> 3 * (ids ! i) \<and> k \<noteq> 3 * (ids ! i) + 1 \<and> k \<noteq> 3 * (ids ! i) + 2
   \<Longrightarrow> fold (get_node ids f) is cf k = cf k"
  by (induction "is" arbitrary: cf) (simp_all add: get_node_apply)

lemma fold_get_node_hit:
  assumes "i \<in> set is" and "\<forall>j \<in> set is. j \<noteq> i \<longrightarrow> ids ! j \<noteq> ids ! i" and "c < 3"
  shows "fold (get_node ids f) is cf (3 * (ids ! i) + int c) = f ! (3 * i + c)"
  using assms
proof (induction "is" arbitrary: cf rule: rev_induct)
  case Nil
  then show ?case by simp
next
  case (snoc j js)
  define g where "g = fold (get_node ids f) js cf"
  have c: "c = 0 \<or> c = 1 \<or> c = 2" using snoc.prems(3) by arith
  have step: "fold (get_node ids f) (js @ [j]) cf = get_node ids f j g"
    by (simp add: g_def)
  show ?case
  proof (cases "j = i")
    case True
    with c show ?thesis unfolding step by (auto simp: get_node_apply)
  next
    case False
    with snoc.prems have mem: "i \<in> set js" and ne: "ids ! j \<noteq> ids ! i" by auto
    have "g (3 * (ids ! i) + int c) = f ! (3 * i + c)"
      unfolding g_def using snoc.IH [OF mem _ snoc.prems(3)] snoc.prems(2) by simp
    with ne c show ?thesis unfolding step by (auto simp: get_node_apply)
  qed
qed

text \<open>
  C10. \<^verbatim>\<open>GetForces\<close> assigns the three force components of every submodel node (local
  index \<open>i\<close>) to the entries of \<open>contact_force\<close> at that node's mesh index, whatever
  these entries held before, and leaves the entries of every node that is not in the
  submodel as they were. The node list of the submodel has no repetition: it is read off
  a \<^verbatim>\<open>std::set\<close> (lines 255-262).
\<close>

theorem GetForces_scatter:
  assumes "distinct (node_ids s)"
  shows "(\<forall>i<length (node_ids s). \<forall>c<3.
            GetForces s contact_force (3 * (node_ids s ! i) + int c) = force s ! (3 * i + c))
       \<and> (\<forall>n c. n \<notin> set (node_ids s) \<and> 0 \<le> c \<and> c < 3 \<longrightarrow>
            GetForces s contact_force (3 * n + c) = contact_force (3 * n + c))"
proof (intro conjI allI impI)
  fix i c assume i: "i < length (node_ids s)" and c: "c < (3::nat)"
  have "\<forall>j \<in> set [0..<length (node_ids s)]. j \<noteq> i \<longrightarrow> node_ids s ! j \<noteq> node_ids s ! i"
    using assms i by (auto simp: nth_eq_iff_index_eq)
  then show "GetForces s contact_force (3 * (node_ids s ! i) + int c) = force s ! (3 * i + c)"
    unfolding GetForces_def using i c by (intro fold_get_node_hit) auto
next
  fix n c :: int assume h: "n \<notin> set (node_ids s) \<and> 0 \<le> c \<and> c < 3"
  have "\<forall>i \<in> set [0..<length (node_ids s)].
          3 * n + c \<noteq> 3 * (node_ids s ! i) \<and> 3 * n + c \<noteq> 3 * (node_ids s ! i) + 1
          \<and> 3 * n + c \<noteq> 3 * (node_ids s ! i) + 2"
  proof
    fix i assume "i \<in> set [0..<length (node_ids s)]"
    then have "node_ids s ! i \<noteq> n" using h by auto
    moreover have "0 \<le> c" "c < 3" using h by auto
    ultimately show "3 * n + c \<noteq> 3 * (node_ids s ! i) \<and> 3 * n + c \<noteq> 3 * (node_ids s ! i) + 1
          \<and> 3 * n + c \<noteq> 3 * (node_ids s ! i) + 2" by presburger
  qed
  then show "GetForces s contact_force (3 * n + c) = contact_force (3 * n + c)"
    unfolding GetForces_def by (rule fold_get_node_other)
qed

theorem GetForces_scatter_witness:
  "distinct (node_ids example_manager)
   \<and> GetForces example_manager (\<lambda>k. 9) 7 = 20
   \<and> GetForces example_manager (\<lambda>k. 9) 4 = 9"
proof -
  have d: "distinct (node_ids example_manager)"
    by (simp add: example_manager_def)
  note t = GetForces_scatter [OF d, of "\<lambda>k. 9"]
  have a: "GetForces example_manager (\<lambda>k. 9) (3 * (node_ids example_manager ! 0) + int 1)
           = force example_manager ! (3 * 0 + 1)"
    using t [THEN conjunct1, rule_format, of 0 1] by (simp add: example_manager_def)
  have b: "GetForces example_manager (\<lambda>k. 9) (3 * 1 + 1) = (\<lambda>k. 9) (3 * 1 + (1::int))"
    using t [THEN conjunct2, rule_format, of 1 1] by (simp add: example_manager_def)
  from d a b show ?thesis by (simp add: example_manager_def)
qed

lemma length_apply_node: "length (apply_node ids mc d i c) = length c"
  by (simp add: apply_node_def upt_3)

lemma length_fold_apply_node: "length (fold (apply_node ids mc d) is c) = length c"
  by (induction "is" arbitrary: c) (simp_all add: length_apply_node)

lemma apply_node_nth:
  assumes "3 * i + 2 < length c"
  shows "apply_node ids mc d i c ! k =
     (if k = 3 * i then mc ! (3 * i) + d (3 * (ids ! i))
      else if k = 3 * i + 1 then mc ! (3 * i + 1) + d (3 * (ids ! i) + 1)
      else if k = 3 * i + 2 then mc ! (3 * i + 2) + d (3 * (ids ! i) + 2)
      else c ! k)"
  using assms by (simp add: apply_node_def upt_3 nth_list_update)

lemma fold_apply_node_hit:
  assumes "i \<in> set is" and "\<forall>j \<in> set is. 3 * j + 2 < length c" and "k < 3"
  shows "fold (apply_node ids mc d) is c ! (3 * i + k)
         = mc ! (3 * i + k) + d (3 * (ids ! i) + int k)"
  using assms
proof (induction "is" arbitrary: c rule: rev_induct)
  case Nil
  then show ?case by simp
next
  case (snoc j js)
  define g where "g = fold (apply_node ids mc d) js c"
  have k: "k = 0 \<or> k = 1 \<or> k = 2" using snoc.prems(3) by arith
  have len: "3 * j + 2 < length g"
    using snoc.prems(2) by (simp add: g_def length_fold_apply_node)
  have step: "fold (apply_node ids mc d) (js @ [j]) c = apply_node ids mc d j g"
    by (simp add: g_def)
  show ?case
  proof (cases "j = i")
    case True
    with k show ?thesis unfolding step apply_node_nth [OF len] by auto
  next
    case False
    with snoc.prems have mem: "i \<in> set js" by auto
    have "g ! (3 * i + k) = mc ! (3 * i + k) + d (3 * (ids ! i) + int k)"
      unfolding g_def using snoc.IH [OF mem _ snoc.prems(3)] snoc.prems(2) by simp
    moreover have "3 * i + k \<noteq> 3 * j" "3 * i + k \<noteq> 3 * j + 1" "3 * i + k \<noteq> 3 * j + 2"
      using False k by presburger+
    ultimately show ?thesis unfolding step apply_node_nth [OF len] by simp
  qed
qed

text \<open>
  C9. After \<^verbatim>\<open>ApplyDisplacements\<close>, for every local index \<open>i\<close> and component \<open>c\<close>,
  \<open>coord[3 i + c]\<close> is \<open>model_coord[3 i + c] + displacement[3 node_ids[i] + c]\<close>, and
  every contact face and contact node has re-read its vertex coordinates from that final
  \<open>coord\<close> array. The arrays of the submodel have three entries per node (they are
  resized so at lines 292-295).
\<close>

theorem ApplyDisplacements_coord:
  assumes "length (coord s) = 3 * length (node_ids s)"
  shows "(\<forall>i<length (node_ids s). \<forall>c<3.
            coord (ApplyDisplacements displacement s) ! (3 * i + c)
            = model_coord s ! (3 * i + c) + displacement (3 * (node_ids s ! i) + int c))
       \<and> contact_faces (ApplyDisplacements displacement s)
           = map (SetCoordinates (coord (ApplyDisplacements displacement s))) (contact_faces s)
       \<and> contact_nodes (ApplyDisplacements displacement s)
           = map (SetCoordinates (coord (ApplyDisplacements displacement s))) (contact_nodes s)"
proof (intro conjI allI impI)
  fix i c assume i: "i < length (node_ids s)" and c: "c < (3::nat)"
  have "\<forall>j \<in> set [0..<length (node_ids s)]. 3 * j + 2 < length (coord s)"
    using assms by auto
  then have "fold (apply_node (node_ids s) (model_coord s) displacement)
               [0..<length (node_ids s)] (coord s) ! (3 * i + c)
             = model_coord s ! (3 * i + c) + displacement (3 * (node_ids s ! i) + int c)"
    using i c by (intro fold_apply_node_hit) auto
  then show "coord (ApplyDisplacements displacement s) ! (3 * i + c)
            = model_coord s ! (3 * i + c) + displacement (3 * (node_ids s ! i) + int c)"
    by (simp add: ApplyDisplacements_def Let_def)
qed (simp_all add: ApplyDisplacements_def Let_def)

theorem ApplyDisplacements_coord_witness:
  "length (coord example_manager) = 3 * length (node_ids example_manager)
   \<and> coord (ApplyDisplacements (\<lambda>k. 100) example_manager) ! 1 = 102
   \<and> map coord_1 (contact_nodes (ApplyDisplacements (\<lambda>k. 100) example_manager))
       = [(104, 105, 106)]"
proof -
  have l: "length (coord example_manager) = 3 * length (node_ids example_manager)"
    by (simp add: example_manager_def)
  note t = ApplyDisplacements_coord [OF l, of "\<lambda>k. 100"]
  note c = t [THEN conjunct1, rule_format]
  have "coord (ApplyDisplacements (\<lambda>k. 100) example_manager) ! (3 * 0 + 1) = 102"
    using c [of 0 1] by (simp add: example_manager_def)
  moreover have "coord (ApplyDisplacements (\<lambda>k. 100) example_manager) ! (3 * 1 + 0) = 104"
    using c [of 1 0] by (simp add: example_manager_def)
  moreover have "coord (ApplyDisplacements (\<lambda>k. 100) example_manager) ! (3 * 1 + 1) = 105"
    using c [of 1 1] by (simp add: example_manager_def)
  moreover have "coord (ApplyDisplacements (\<lambda>k. 100) example_manager) ! (3 * 1 + 2) = 106"
    using c [of 1 2] by (simp add: example_manager_def)
  moreover have "contact_nodes (ApplyDisplacements (\<lambda>k. 100) example_manager)
      = map (SetCoordinates (coord (ApplyDisplacements (\<lambda>k. 100) example_manager)))
            (contact_nodes example_manager)"
    using t by simp
  ultimately show ?thesis using l
    by (simp add: example_manager_def SetCoordinates_def triple_at_def vec_at_def)
qed

section \<open>Properties of mesh skinning\<close>

lemma face_value_0: "face_value f ! 0 = 1"
  by (cases f) (simp add: face_value_def)

lemma face_value_upd: "(face_value f)[0 := a] ! 0 = a"
  by (cases f) (simp add: face_value_def)

lemma face_value_upd1: "(face_value f)[0 := 1] = face_value f"
  by (cases f) (simp add: face_value_def)

lemma insort_key_fst_map:
  "k \<notin> set ks \<Longrightarrow>
   insort_key fst (k, v) (map (\<lambda>k'. (k', g k')) ks)
   = map (\<lambda>k'. (k', if k' = k then v else g k')) (insort k ks)"
  by (induction ks) auto

lemma map_of_keys_None:
  "map_of (map (\<lambda>k. (k, g k)) ks) k = None \<longleftrightarrow> k \<notin> set ks"
  by (simp add: map_of_map_restrict restrict_map_def)

lemma occurrences_snoc:
  "occurrences (fs @ [f]) k = occurrences fs k + (if face_key f = k then 1 else 0)"
  by (simp add: occurrences_def)

lemma occurrences_0: "occurrences fs k = 0 \<longleftrightarrow> k \<notin> face_key ` set fs"
  by (auto simp: occurrences_def filter_empty_conv)

lemma entry_snoc_other: "face_key f \<noteq> k \<Longrightarrow> entry (fs @ [f]) k = entry fs k"
  by (simp add: entry_def occurrences_def)

lemma entry_snoc_new: "face_key f \<notin> face_key ` set fs \<Longrightarrow> entry (fs @ [f]) (face_key f) = face_value f"
proof -
  assume a: "face_key f \<notin> face_key ` set fs"
  then have "\<forall>g\<in>set fs. face_key g \<noteq> face_key f" by (metis imageI)
  then have "filter (\<lambda>g. face_key g = face_key f) fs = []"
    by (simp add: filter_empty_conv)
  then show ?thesis by (simp add: entry_def occurrences_def face_value_upd1)
qed

lemma entry_snoc_old:
  assumes "face_key f \<in> face_key ` set fs"
  shows "entry (fs @ [f]) (face_key f) = (entry fs (face_key f))[0 := entry fs (face_key f) ! 0 + 1]"
proof -
  have ne: "filter (\<lambda>g. face_key g = face_key f) fs \<noteq> []"
    using assms by (simp add: filter_empty_conv image_iff) metis
  then have "hd (filter (\<lambda>g. face_key g = face_key f) (fs @ [f])) = hd (filter (\<lambda>g. face_key g = face_key f) fs)"
    by simp
  then show ?thesis
    by (simp add: entry_def occurrences_snoc face_value_upd add.commute del: filter_append)
qed

lemma fold_add_face:
  "fold add_face fs [] = map (\<lambda>k. (k, entry fs k)) (sorted_list_of_set (face_key ` set fs))"
proof (induction fs rule: rev_induct)
  case Nil
  then show ?case by simp
next
  case (snoc f fs)
  let ?ks = "sorted_list_of_set (face_key ` set fs)"
  let ?k = "face_key f"
  have ks: "set ?ks = face_key ` set fs" by simp
  have step: "fold add_face (fs @ [f]) [] = add_face f (map (\<lambda>k. (k, entry fs k)) ?ks)"
    using snoc.IH by simp
  show ?case
  proof (cases "?k \<in> face_key ` set fs")
    case False
    then have "fold add_face (fs @ [f]) [] = insort_key fst (?k, face_value f) (map (\<lambda>k. (k, entry fs k)) ?ks)"
      unfolding step by (simp add: add_face_def record_face_def map_of_keys_None [THEN iffD2])
    also have "\<dots> = map (\<lambda>k'. (k', if k' = ?k then face_value f else entry fs k')) (insort ?k ?ks)"
      using False by (intro insort_key_fst_map) simp
    also have "\<dots> = map (\<lambda>k'. (k', entry (fs @ [f]) k')) (insort ?k ?ks)"
      using False by (auto simp: entry_snoc_new entry_snoc_other)
    also have "insort ?k ?ks = sorted_list_of_set (face_key ` set (fs @ [f]))"
      using False by (simp add: sorted_list_of_set_insert)
    finally show ?thesis .
  next
    case True
    then obtain v where v: "map_of (map (\<lambda>k. (k, entry fs k)) ?ks) ?k = Some v"
      using map_of_keys_None [of "entry fs" ?ks ?k] by auto
    have "fold add_face (fs @ [f]) [] =
            map (\<lambda>(k, v). if k = ?k then (k, v[0 := v ! 0 + 1]) else (k, v)) (map (\<lambda>k. (k, entry fs k)) ?ks)"
      unfolding step using v by (simp add: add_face_def record_face_def)
    also have "\<dots> = map (\<lambda>k'. (k', entry (fs @ [f]) k')) ?ks"
      using True by (auto simp: entry_snoc_old entry_snoc_other)
    also have "?ks = sorted_list_of_set (face_key ` set (fs @ [f]))"
      using True by (simp add: insert_absorb)
    finally show ?thesis .
  qed
qed

lemma fold_concat_map: "fold f (concat (map g xs)) s = fold (\<lambda>x. fold f (g x)) xs s"
  by (induction xs arbitrary: s) simp_all

lemma add_element_fold: "add_element b = (\<lambda>i. fold add_face (element_faces b i))"
  by (intro ext) (simp add: add_element_def element_faces_def fold_map comp_def)

lemma add_block_fold: "add_block = (\<lambda>b. fold add_face (block_faces b))"
  by (intro ext) (simp add: add_block_def block_faces_def fold_concat_map add_element_fold)

lemma blocks_fold:
  "fold (\<lambda>block_id. add_block (block mesh block_id)) block_ids faces
   = fold add_face (all_faces mesh block_ids) faces"
  by (simp add: all_faces_def fold_concat_map add_block_fold)


lemma emit_skin_eq:
  "emit_skin off m (fs, es) =
     (if \<exists>e \<in> set m. snd e ! 0 \<noteq> 1 \<and> snd e ! 0 \<noteq> 2 then Inl Abort
      else Inr (fs @ map (\<lambda>e. skin_face (snd e)) (filter (\<lambda>e. snd e ! 0 = 1) m),
                es @ map (\<lambda>e. skin_entity_id off (snd e)) (filter (\<lambda>e. snd e ! 0 = 1) m)))"
proof (induction m arbitrary: fs es)
  case Nil
  then show ?case by simp
next
  case (Cons e m)
  obtain k v where e: "e = (k, v)" by (cases e)
  show ?case unfolding e by (simp add: Cons.IH)
qed

lemma distinct_map_filter_once:
  "\<forall>x \<in> set ys. P x \<longrightarrow> length (filter (\<lambda>y. g y = g x) ys) \<le> 1
   \<Longrightarrow> distinct (map g (filter P ys))"
proof (induction ys)
  case Nil
  then show ?case by simp
next
  case (Cons y ys)
  have ih: "distinct (map g (filter P ys))"
  proof (rule Cons.IH, intro ballI impI)
    fix x assume "x \<in> set ys" "P x"
    then have "length (filter (\<lambda>z. g z = g x) (y # ys)) \<le> 1" using Cons.prems by simp
    then show "length (filter (\<lambda>z. g z = g x) ys) \<le> 1" by (simp split: if_splits)
  qed
  show ?case
  proof (cases "P y")
    case False
    with ih show ?thesis by simp
  next
    case True
    then have "length (filter (\<lambda>z. g z = g y) (y # ys)) \<le> 1" using Cons.prems by simp
    then have "filter (\<lambda>z. g z = g y) ys = []" by simp
    then have "g y \<notin> g ` set ys" by (simp add: filter_empty_conv image_iff) metis
    with ih True show ?thesis by auto
  qed
qed

lemma distinct_skin_keys: "distinct (map face_key (skin_occurrences fs))"
proof -
  have "distinct (map face_key (filter (\<lambda>f. occurrences fs (face_key f) = 1) fs))"
    by (rule distinct_map_filter_once) (simp add: occurrences_def)
  then show ?thesis
    unfolding skin_occurrences_def by (simp add: distinct_map)
qed

lemma set_skin_occurrences:
  "set (skin_occurrences fs) = {f \<in> set fs. occurrences fs (face_key f) = 1}"
  by (auto simp: skin_occurrences_def)

lemma entry_once:
  assumes "f \<in> set fs" and "occurrences fs (face_key f) = 1"
  shows "entry fs (face_key f) = face_value f"
proof -
  obtain g where g: "filter (\<lambda>h. face_key h = face_key f) fs = [g]"
    using assms(2) unfolding occurrences_def by (auto simp: length_Suc_conv)
  have "f \<in> set (filter (\<lambda>h. face_key h = face_key f) fs)" using assms(1) by simp
  then have "g = f" unfolding g by simp
  then show ?thesis using g assms(2) by (simp add: entry_def face_value_upd1)
qed

lemma entry_0: "k \<in> face_key ` set fs \<Longrightarrow> entry fs k ! 0 = int (occurrences fs k)"
  by (simp add: entry_def face_value_upd)

lemma once_keys_eq:
  "filter (\<lambda>k. occurrences fs k = 1) (sorted_list_of_set (face_key ` set fs))
   = map face_key (skin_occurrences fs)"
proof (rule sorted_distinct_set_unique)
  show "sorted (map face_key (skin_occurrences fs))"
    by (simp add: skin_occurrences_def)
  show "distinct (map face_key (skin_occurrences fs))" by (rule distinct_skin_keys)
  show "set (filter (\<lambda>k. occurrences fs k = 1) (sorted_list_of_set (face_key ` set fs)))
        = set (map face_key (skin_occurrences fs))"
    by (auto simp: set_skin_occurrences)
qed (simp_all add: sorted_wrt_filter)

lemma skin_face_value: "skin_face (face_value f) = fst f"
proof -
  obtain ns e ordinal where f: "f = (ns, e, ordinal)" by (cases f)
  have "map (\<lambda>i. (1 # ns @ [e, int ordinal]) ! (i + 1)) [0..<length ns] = map (\<lambda>i. ns ! i) [0..<length ns]"
    by (intro map_cong) (simp_all add: nth_append)
  then show ?thesis by (simp add: f face_value_def skin_face_def map_nth)
qed

lemma SkinBlocks_eq:
  "SkinBlocks mesh block_ids off =
     (if \<exists>f \<in> set (all_faces mesh block_ids). 2 < occurrences (all_faces mesh block_ids) (face_key f)
      then Inl Abort
      else Inr (map fst (skin_occurrences (all_faces mesh block_ids)),
                map (\<lambda>f. skin_entity_id off (face_value f)) (skin_occurrences (all_faces mesh block_ids))))"
proof -
  define fs where "fs = all_faces mesh block_ids"
  define ks where "ks = sorted_list_of_set (face_key ` set fs)"
  define m where "m = map (\<lambda>k. (k, entry fs k)) ks"
  have ks: "set ks = face_key ` set fs" by (simp add: ks_def)
  have m: "fold (\<lambda>block_id. add_block (block mesh block_id)) block_ids [] = m"
    by (simp add: blocks_fold fold_add_face m_def ks_def fs_def)
  have cnt: "snd e ! 0 = int (occurrences fs (fst e))" if "e \<in> set m" for e
    using that ks by (auto simp: m_def entry_0)
  have pos: "0 < occurrences fs (fst e)" if "e \<in> set m" for e
    using that ks occurrences_0 [of fs "fst e"] by (auto simp: m_def)
  have ab: "(\<exists>e \<in> set m. snd e ! 0 \<noteq> 1 \<and> snd e ! 0 \<noteq> 2)
            \<longleftrightarrow> (\<exists>f \<in> set fs. 2 < occurrences fs (face_key f))"
  proof
    assume "\<exists>e \<in> set m. snd e ! 0 \<noteq> 1 \<and> snd e ! 0 \<noteq> 2"
    then obtain e where e: "e \<in> set m" "snd e ! 0 \<noteq> 1" "snd e ! 0 \<noteq> 2" by blast
    then have "2 < occurrences fs (fst e)" using cnt [OF e(1)] pos [OF e(1)] by simp
    moreover have "fst e \<in> face_key ` set fs" using e(1) ks by (auto simp: m_def)
    ultimately show "\<exists>f \<in> set fs. 2 < occurrences fs (face_key f)" by auto
  next
    assume "\<exists>f \<in> set fs. 2 < occurrences fs (face_key f)"
    then obtain f where f: "f \<in> set fs" "2 < occurrences fs (face_key f)" by blast
    then have mem: "(face_key f, entry fs (face_key f)) \<in> set m" using ks by (auto simp: m_def)
    from cnt [OF mem] f(2) show "\<exists>e \<in> set m. snd e ! 0 \<noteq> 1 \<and> snd e ! 0 \<noteq> 2"
      using mem by (intro bexI [of _ "(face_key f, entry fs (face_key f))"]) auto
  qed
  have "filter (\<lambda>e. snd e ! 0 = 1) m = map (\<lambda>k. (k, entry fs k)) (filter (\<lambda>k. occurrences fs k = 1) ks)"
    unfolding m_def filter_map comp_def
    by (intro arg_cong [where f = "map _"] filter_cong refl) (simp add: entry_0 ks)
  also have "\<dots> = map (\<lambda>k. (k, entry fs k)) (map face_key (skin_occurrences fs))"
    by (simp only: ks_def once_keys_eq)
  also have "\<dots> = map (\<lambda>f. (face_key f, face_value f)) (skin_occurrences fs)"
    by (simp add: set_skin_occurrences entry_once)
  finally have out: "filter (\<lambda>e. snd e ! 0 = 1) m = map (\<lambda>f. (face_key f, face_value f)) (skin_occurrences fs)" .
  show ?thesis
    unfolding SkinBlocks_def m emit_skin_eq ab out fs_def [symmetric]
    by (simp add: comp_def skin_face_value)
qed

text \<open>
  C3. \<^verbatim>\<open>SkinBlocks\<close> aborts when the key of some face occurs more than twice among the
  faces of the elements of the requested blocks. Otherwise it returns, in the order of
  their keys, the unsorted node lists of exactly the faces whose key occurs once: a face
  whose key occurs twice is left out, and no key is output twice.
\<close>

theorem SkinBlocks_boundary_faces:
  "((\<exists>f \<in> set (all_faces mesh block_ids).
        2 < occurrences (all_faces mesh block_ids) (face_key f))
      \<longrightarrow> SkinBlocks mesh block_ids off = Inl Abort)
   \<and> ((\<forall>f \<in> set (all_faces mesh block_ids).
          occurrences (all_faces mesh block_ids) (face_key f) \<le> 2)
      \<longrightarrow> (\<exists>ids. SkinBlocks mesh block_ids off
                   = Inr (map fst (skin_occurrences (all_faces mesh block_ids)), ids)
                 \<and> length ids = length (skin_occurrences (all_faces mesh block_ids))))
   \<and> set (skin_occurrences (all_faces mesh block_ids))
       = {f \<in> set (all_faces mesh block_ids).
            occurrences (all_faces mesh block_ids) (face_key f) = 1}
   \<and> distinct (map face_key (skin_occurrences (all_faces mesh block_ids)))"
proof (intro conjI impI)
  assume "\<exists>f \<in> set (all_faces mesh block_ids).
            2 < occurrences (all_faces mesh block_ids) (face_key f)"
  then show "SkinBlocks mesh block_ids off = Inl Abort"
    by (simp add: SkinBlocks_eq)
next
  assume "\<forall>f \<in> set (all_faces mesh block_ids).
            occurrences (all_faces mesh block_ids) (face_key f) \<le> 2"
  then have "\<not> (\<exists>f \<in> set (all_faces mesh block_ids).
                   2 < occurrences (all_faces mesh block_ids) (face_key f))"
    by (simp add: not_less)
  then show "\<exists>ids. SkinBlocks mesh block_ids off
                   = Inr (map fst (skin_occurrences (all_faces mesh block_ids)), ids)
                 \<and> length ids = length (skin_occurrences (all_faces mesh block_ids))"
    by (simp add: SkinBlocks_eq)
qed (simp_all add: set_skin_occurrences distinct_skin_keys)

theorem SkinBlocks_boundary_faces_witness:
  "map_sum id fst (SkinBlocks two_hex [1] 11)
     = Inr [[0, 3, 2, 1], [0, 1, 5, 4], [0, 4, 7, 3], [1, 2, 6, 5], [2, 3, 7, 6],
            [4, 5, 9, 8], [4, 8, 11, 7], [5, 6, 10, 9], [6, 7, 11, 10], [8, 9, 10, 11]]
   \<and> SkinBlocks one_hex [1, 1, 1] 8 = Inl Abort"
proof -
  have h: "\<forall>f \<in> set (all_faces two_hex [1]). occurrences (all_faces two_hex [1]) (face_key f) \<le> 2"
    by code_simp
  have s: "map fst (skin_occurrences (all_faces two_hex [1]))
           = [[0, 3, 2, 1], [0, 1, 5, 4], [0, 4, 7, 3], [1, 2, 6, 5], [2, 3, 7, 6],
              [4, 5, 9, 8], [4, 8, 11, 7], [5, 6, 10, 9], [6, 7, 11, 10], [8, 9, 10, 11]]"
    by code_simp
  have a: "\<exists>f \<in> set (all_faces one_hex [1, 1, 1]).
             2 < occurrences (all_faces one_hex [1, 1, 1]) (face_key f)"
    by code_simp
  from SkinBlocks_boundary_faces [of two_hex "[1]" 11, THEN conjunct2, THEN conjunct1, THEN mp, OF h]
  obtain ids where "SkinBlocks two_hex [1] 11 = Inr (map fst (skin_occurrences (all_faces two_hex [1])), ids)"
    by blast
  moreover have "SkinBlocks one_hex [1, 1, 1] 8 = Inl Abort"
    using SkinBlocks_boundary_faces [of one_hex "[1, 1, 1]" 8, THEN conjunct1, THEN mp, OF a] .
  ultimately show ?thesis by (simp add: s)
qed

section \<open>Properties of the contact entities\<close>

lemma lowest_neg: "lowest < 0"
proof -
  have "(0::real) < 2 - 1 / 2 ^ 52" by simp
  moreover have "(0::real) < 2 ^ 1023" by (rule zero_less_power) simp
  ultimately have "(0::real) < (2 - 1 / 2 ^ 52) * 2 ^ 1023" by (rule mult_pos_pos)
  then show ?thesis unfolding lowest_def by linarith
qed

lemma fold_if_max:
  fixes g :: "nat \<Rightarrow> real"
  shows "fold (\<lambda>i m. if m < g i then g i else m) is m0 = Max (insert m0 (g ` set is))"
proof (induction "is" arbitrary: m0)
  case Nil
  then show ?case by simp
next
  case (Cons i "is")
  have "fold (\<lambda>i m. if m < g i then g i else m) (i # is) m0
        = fold (\<lambda>i m. if m < g i then g i else m) is (if m0 < g i then g i else m0)"
    by simp
  also have "\<dots> = Max (insert (if m0 < g i then g i else m0) (g ` set is))"
    by (rule Cons.IH)
  also have "\<dots> = Max (insert m0 (insert (g i) (g ` set is)))"
  proof (cases "set is = {}")
    case True
    then show ?thesis by (simp add: max_def)
  next
    case False
    then show ?thesis by (simp add: max_def)
  qed
  finally show ?case by (simp add: insert_commute)
qed

lemma fold_loop_max:
  fixes g :: "nat \<Rightarrow> real"
  assumes "0 < n" and "\<forall>i<n. 0 \<le> g i"
  shows "fold (\<lambda>i m. let x = g i in if x > m then x else m) [0..<n] lowest = Max (g ` {..<n})"
proof -
  have ne: "g ` {..<n} \<noteq> {}" using assms(1) by auto
  have "Max (insert lowest (g ` {..<n})) = max lowest (Max (g ` {..<n}))"
    using ne by simp
  moreover have "lowest \<le> Max (g ` {..<n})"
  proof -
    have "g 0 \<le> Max (g ` {..<n})" using assms(1) by (intro Max_ge) auto
    with assms lowest_neg show ?thesis by (meson less_eq_real_def order_trans)
  qed
  ultimately show ?thesis by (simp add: Let_def fold_if_max atLeast0LessThan max_def)
qed

lemma edge_length_square_nonneg: "0 \<le> edge_length_square c a b"
  by (simp add: edge_length_square_def)

lemma edge_end_mod: "i < length face \<Longrightarrow> edge_end face i = face ! ((i + 1) mod length face)"
proof (cases "i + 1 < length face")
  case True
  then show ?thesis by (simp add: edge_end_def)
next
  case False
  assume "i < length face"
  with False have "i + 1 = length face" by simp
  then have "(i + 1) mod length face = 0" by simp
  with False show ?thesis by (simp add: edge_end_def)
qed

lemma max_edge_length_eq:
  assumes "face \<noteq> []"
  shows "max_edge_length c face = longest_edge c face"
proof -
  have "max_edge_length c face
        = Max ((\<lambda>i. sqrt (edge_length_square c (face ! i) (edge_end face i))) ` {..<length face})"
    unfolding max_edge_length_def using assms
    by (intro fold_loop_max) (simp_all add: edge_length_square_nonneg)
  also have "\<dots> = longest_edge c face"
    unfolding longest_edge_def by (intro arg_cong [where f = Max] image_cong refl) (simp add: edge_end_mod)
  finally show ?thesis .
qed

lemma sqrt_max_edge_length_square_eq:
  assumes "face \<noteq> []"
  shows "sqrt (max_edge_length_square c face) = longest_edge c face"
proof -
  let ?e = "\<lambda>i. edge_length_square c (face ! i) (edge_end face i)"
  have "0 \<in> {..<length face}" using assms by simp
  then have ne: "?e ` {..<length face} \<noteq> {}" by blast
  have "max_edge_length_square c face = Max (?e ` {..<length face})"
    unfolding max_edge_length_square_def using assms
    by (intro fold_loop_max) (simp_all add: edge_length_square_nonneg)
  then have "sqrt (max_edge_length_square c face) = sqrt (Max (?e ` {..<length face}))" by simp
  also have "\<dots> = Max (sqrt ` ?e ` {..<length face})"
    using ne by (intro mono_Max_commute) (auto simp: mono_def)
  also have "\<dots> = longest_edge c face"
    unfolding longest_edge_def image_image
    by (intro arg_cong [where f = Max] image_cong refl) (simp add: edge_end_mod)
  finally show ?thesis .
qed

lemma fold_add: "fold (\<lambda>i a. a + g i) is (a0::real) = a0 + sum_list (map g is)"
  by (induction "is" arbitrary: a0) simp_all

lemma fictitious_node_eq: "fictitious_node c face = barycenter c face"
  by (simp add: fictitious_node_def barycenter_def fold_add interv_sum_list_conv_sum_set_nat
        atLeast0LessThan Let_def)


lemma convert_face_ok:
  assumes "length face = 4" and "index + 3 < length cfs"
  shows "\<exists>cfs'. convert_face c face fid (cfs, index) = Inr (cfs', index + 4)
           \<and> length cfs' = length cfs
           \<and> cfs' ! index = face_triangle c face fid 0 0 1 index
           \<and> cfs' ! (index + 1) = face_triangle c face fid 1 1 2 (index + 1)
           \<and> cfs' ! (index + 2) = face_triangle c face fid 2 2 3 (index + 2)
           \<and> cfs' ! (index + 3) = face_triangle c face fid 3 3 0 (index + 3)
           \<and> (\<forall>j<index. cfs' ! j = cfs ! j)"
  using assms by (simp add: convert_face_def Let_def nth_list_update eval_nat_numeral)

lemma convert_face_error:
  "convert_face c face fid st = Inl e \<Longrightarrow> e = Abort \<and> length face \<noteq> 4"
  by (cases st) (simp add: convert_face_def Let_def split: if_splits)

lemma convert_face_abort: "length face \<noteq> 4 \<Longrightarrow> convert_face c face fid st = Inl Abort"
  by (cases st) (simp add: convert_face_def)

lemma primary_loop_ok:
  assumes "\<forall>i \<in> set is. length (faces ! i) = 4" and "index + 4 * length is \<le> length cfs"
  shows "\<exists>cfs'. primary_loop c faces ids is (cfs, index) = Inr (cfs', index + 4 * length is)
           \<and> length cfs' = length cfs
           \<and> (\<forall>p<length is. \<forall>t<4. cfs' ! (index + 4 * p + t)
                  = face_triangle c (faces ! (is ! p)) (ids ! (is ! p)) t t ((t + 1) mod 4) (index + 4 * p + t))
           \<and> (\<forall>j<index. cfs' ! j = cfs ! j)"
  using assms
proof (induction "is" arbitrary: cfs index)
  case Nil
  then show ?case by simp
next
  case (Cons i "is")
  have l4: "length (faces ! i) = 4" using Cons.prems(1) by simp
  have rng: "index + 3 < length cfs" using Cons.prems(2) by simp
  from convert_face_ok [OF l4 rng, of c "ids ! i"]
  obtain cfs1 where c1: "convert_face c (faces ! i) (ids ! i) (cfs, index) = Inr (cfs1, index + 4)"
    and len1: "length cfs1 = length cfs"
    and t0: "cfs1 ! index = face_triangle c (faces ! i) (ids ! i) 0 0 1 index"
    and t1: "cfs1 ! (index + 1) = face_triangle c (faces ! i) (ids ! i) 1 1 2 (index + 1)"
    and t2: "cfs1 ! (index + 2) = face_triangle c (faces ! i) (ids ! i) 2 2 3 (index + 2)"
    and t3: "cfs1 ! (index + 3) = face_triangle c (faces ! i) (ids ! i) 3 3 0 (index + 3)"
    and old1: "\<forall>j<index. cfs1 ! j = cfs ! j"
    by blast
  have "\<forall>i \<in> set is. length (faces ! i) = 4" using Cons.prems(1) by simp
  moreover have "(index + 4) + 4 * length is \<le> length cfs1" using Cons.prems(2) len1 by simp
  ultimately obtain cfs' where
    r: "primary_loop c faces ids is (cfs1, index + 4) = Inr (cfs', index + 4 + 4 * length is)"
    and len: "length cfs' = length cfs1"
    and new: "\<forall>p<length is. \<forall>t<4. cfs' ! (index + 4 + 4 * p + t)
                  = face_triangle c (faces ! (is ! p)) (ids ! (is ! p)) t t ((t + 1) mod 4) (index + 4 + 4 * p + t)"
    and old: "\<forall>j<index + 4. cfs' ! j = cfs1 ! j"
    using Cons.IH [of "index + 4" cfs1] by blast
  have first: "cfs' ! (index + t) = face_triangle c (faces ! i) (ids ! i) t t ((t + 1) mod 4) (index + t)"
    if "t < 4" for t
  proof -
    have e: "cfs' ! (index + t) = cfs1 ! (index + t)" using old that by simp
    have m: "(0 + 1) mod 4 = (1::nat)" "(1 + 1) mod 4 = (2::nat)" "(2 + 1) mod 4 = (3::nat)"
      "(3 + 1) mod 4 = (0::nat)" by simp_all
    from that consider "t = 0" | "t = 1" | "t = 2" | "t = 3" by arith
    then show ?thesis
    proof cases
      case 1
      show ?thesis unfolding e unfolding 1 m using t0 by simp
    next
      case 2
      show ?thesis unfolding e unfolding 2 m using t1 by simp
    next
      case 3
      show ?thesis unfolding e unfolding 3 m using t2 by simp
    next
      case 4
      show ?thesis unfolding e unfolding 4 m using t3 by simp
    qed
  qed
  have all: "cfs' ! (index + 4 * p + t)
              = face_triangle c (faces ! ((i # is) ! p)) (ids ! ((i # is) ! p)) t t ((t + 1) mod 4) (index + 4 * p + t)"
    if "p < length (i # is)" "t < 4" for p t
  proof (cases p)
    case 0
    then show ?thesis using first [OF that(2)] by simp
  next
    case (Suc q)
    then have q: "q < length is" using that(1) by simp
    have eq: "index + 4 * p + t = index + 4 + 4 * q + t" using Suc by simp
    show ?thesis unfolding eq using new [rule_format, OF q that(2)] Suc by simp
  qed
  show ?case
  proof (intro exI [of _ cfs'] conjI allI impI)
    show "primary_loop c faces ids (i # is) (cfs, index) = Inr (cfs', index + 4 * length (i # is))"
      using c1 r by (simp add: add.assoc)
    show "length cfs' = length cfs" using len len1 by simp
  next
    fix p t assume "p < length (i # is)" "t < (4::nat)"
    then show "cfs' ! (index + 4 * p + t)
              = face_triangle c (faces ! ((i # is) ! p)) (ids ! ((i # is) ! p)) t t ((t + 1) mod 4) (index + 4 * p + t)"
      by (rule all)
  next
    fix j assume "j < index"
    then show "cfs' ! j = cfs ! j" using old old1 by simp
  qed
qed

lemma primary_loop_abort:
  "\<exists>i \<in> set is. length (faces ! i) \<noteq> 4 \<Longrightarrow> primary_loop c faces ids is st = Inl Abort"
proof (induction "is" arbitrary: st)
  case Nil
  then show ?case by simp
next
  case (Cons i "is")
  show ?case
  proof (cases "convert_face c (faces ! i) (ids ! i) st")
    case (Inl e)
    then show ?thesis using convert_face_error [OF Inl] by simp
  next
    case (Inr st')
    then have "length (faces ! i) = 4" using convert_face_abort [of "faces ! i" c "ids ! i" st] by auto
    with Cons.prems have "\<exists>i \<in> set is. length (faces ! i) \<noteq> 4" by auto
    then show ?thesis using Inr Cons.IH by simp
  qed
qed

lemma secondary_loop_ok:
  assumes "\<forall>i \<in> set is. i < length sec_eids \<and> i < length cns \<and> sec_ids ! i \<in> dom sec_cl"
    and "distinct is"
  shows "\<exists>cns'. secondary_loop c sec_ids sec_eids sec_cl is cns = Inr cns'
           \<and> length cns' = length cns
           \<and> (\<forall>i \<in> set is. cns' ! i = node_entity (sec_eids ! i) i (triple_at c (sec_ids ! i))
                                          (the (sec_cl (sec_ids ! i))) (sec_ids ! i))
           \<and> (\<forall>j. j \<notin> set is \<longrightarrow> cns' ! j = cns ! j)"
  using assms
proof (induction "is" arbitrary: cns)
  case Nil
  then show ?case by simp
next
  case (Cons i "is")
  let ?e = "node_entity (sec_eids ! i) i (triple_at c (sec_ids ! i)) (the (sec_cl (sec_ids ! i))) (sec_ids ! i)"
  from Cons.prems(1) obtain l where l: "sec_cl (sec_ids ! i) = Some l" and i1: "i < length sec_eids"
    and i2: "i < length cns" by auto
  have step: "secondary_loop c sec_ids sec_eids sec_cl (i # is) cns
              = secondary_loop c sec_ids sec_eids sec_cl is (cns[i := ?e])"
    using l i1 by (simp add: Let_def)
  have "\<forall>j \<in> set is. j < length sec_eids \<and> j < length (cns[i := ?e]) \<and> sec_ids ! j \<in> dom sec_cl"
    using Cons.prems(1) by simp
  moreover have "distinct is" using Cons.prems(2) by simp
  ultimately obtain cns' where r: "secondary_loop c sec_ids sec_eids sec_cl is (cns[i := ?e]) = Inr cns'"
    and len: "length cns' = length (cns[i := ?e])"
    and new: "\<forall>j \<in> set is. cns' ! j = node_entity (sec_eids ! j) j (triple_at c (sec_ids ! j))
                                          (the (sec_cl (sec_ids ! j))) (sec_ids ! j)"
    and old: "\<forall>j. j \<notin> set is \<longrightarrow> cns' ! j = (cns[i := ?e]) ! j"
    using Cons.IH [of "cns[i := ?e]"] by blast
  have "i \<notin> set is" using Cons.prems(2) by simp
  then have "cns' ! i = ?e" using old i2 by simp
  then show ?case using step r len new old by (intro exI [of _ cns']) auto
qed

text \<open>
  C4. When every primary skin face has four nodes, \<^verbatim>\<open>CreateContactNodesAndFaces\<close>
  writes four triangles per face, at the positions \<open>4 i\<close> to \<open>4 i + 3\<close> for face \<open>i\<close>:
  triangle \<open>t\<close> has the face nodes \<open>t\<close> and \<open>t + 1\<close> (node 0 after node 3) and the barycenter of
  the four face nodes, the longest edge of the face as its characteristic length, and the
  entity id of the face or-ed with \<open>t\<close>. A face with another number of nodes aborts. The
  arrays are sized by the caller (lines 348-349) and the secondary lists are consistent
  (they are filled together at lines 331-336).
\<close>

theorem CreateContactNodesAndFaces_triangles:
  assumes "length cfs0 = 4 * length faces"
    and "length cns0 = length sec_ids" and "length sec_eids = length sec_ids"
    and "set sec_ids \<subseteq> dom sec_cl"
  shows "((\<forall>f \<in> set faces. length f = 4) \<longrightarrow>
           (\<exists>cns cfs. CreateContactNodesAndFaces c faces ids sec_ids sec_eids sec_cl cns0 cfs0
                         = Inr (cns, cfs)
              \<and> length cfs = 4 * length faces
              \<and> (\<forall>i<length faces. \<forall>t<4.
                    entity_type (cfs ! (4 * i + t)) = TRIANGLE
                  \<and> coord_1 (cfs ! (4 * i + t)) = triple_at c (faces ! i ! t)
                  \<and> coord_2 (cfs ! (4 * i + t)) = triple_at c (faces ! i ! ((t + 1) mod 4))
                  \<and> coord_3 (cfs ! (4 * i + t)) = barycenter c (faces ! i)
                  \<and> char_len (cfs ! (4 * i + t)) = longest_edge c (faces ! i)
                  \<and> contact_entity_global_id (cfs ! (4 * i + t)) = ids ! i OR word_of_nat t)))
       \<and> ((\<exists>f \<in> set faces. length f \<noteq> 4) \<longrightarrow>
            CreateContactNodesAndFaces c faces ids sec_ids sec_eids sec_cl cns0 cfs0 = Inl Abort)"
proof (intro conjI impI)
  assume four: "\<forall>f \<in> set faces. length f = 4"
  have "\<forall>i \<in> set [0..<length faces]. length (faces ! i) = 4" using four by simp
  moreover have "0 + 4 * length [0..<length faces] \<le> length cfs0" using assms(1) by simp
  ultimately obtain cfs where
    p: "primary_loop c faces ids [0..<length faces] (cfs0, 0)
        = Inr (cfs, 0 + 4 * length [0..<length faces])"
    and len: "length cfs = length cfs0"
    and new: "\<forall>p<length [0..<length faces]. \<forall>t<4. cfs ! (0 + 4 * p + t)
                = face_triangle c (faces ! ([0..<length faces] ! p)) (ids ! ([0..<length faces] ! p))
                    t t ((t + 1) mod 4) (0 + 4 * p + t)"
    using primary_loop_ok [of "[0..<length faces]" faces 0 cfs0 c ids] by blast
  have "\<forall>i \<in> set [0..<length sec_ids].
          i < length sec_eids \<and> i < length cns0 \<and> sec_ids ! i \<in> dom sec_cl"
    using assms(2-4) by (auto simp: subset_iff)
  then obtain cns where
    s: "secondary_loop c sec_ids sec_eids sec_cl [0..<length sec_ids] cns0 = Inr cns"
    using secondary_loop_ok [of "[0..<length sec_ids]" sec_eids cns0 sec_ids sec_cl c] by auto
  have tri: "cfs ! (4 * i + t) = face_triangle c (faces ! i) (ids ! i) t t ((t + 1) mod 4) (4 * i + t)"
    if "i < length faces" "t < 4" for i t
    using new [rule_format, of i t] that by simp
  show "\<exists>cns cfs. CreateContactNodesAndFaces c faces ids sec_ids sec_eids sec_cl cns0 cfs0
                         = Inr (cns, cfs)
              \<and> length cfs = 4 * length faces
              \<and> (\<forall>i<length faces. \<forall>t<4.
                    entity_type (cfs ! (4 * i + t)) = TRIANGLE
                  \<and> coord_1 (cfs ! (4 * i + t)) = triple_at c (faces ! i ! t)
                  \<and> coord_2 (cfs ! (4 * i + t)) = triple_at c (faces ! i ! ((t + 1) mod 4))
                  \<and> coord_3 (cfs ! (4 * i + t)) = barycenter c (faces ! i)
                  \<and> char_len (cfs ! (4 * i + t)) = longest_edge c (faces ! i)
                  \<and> contact_entity_global_id (cfs ! (4 * i + t)) = ids ! i OR word_of_nat t)"
  proof (rule exI [of _ cns], rule exI [of _ cfs], intro conjI allI impI)
    show "CreateContactNodesAndFaces c faces ids sec_ids sec_eids sec_cl cns0 cfs0 = Inr (cns, cfs)"
      using p s by (simp add: CreateContactNodesAndFaces_def)
    show "length cfs = 4 * length faces" using len assms(1) by simp
  next
    fix i t assume it: "i < length faces" "t < (4::nat)"
    then have "length (faces ! i) = 4" using four by (simp add: nth_mem)
    then have ne: "faces ! i \<noteq> []" by auto
    note e = tri [OF it]
    show "entity_type (cfs ! (4 * i + t)) = TRIANGLE"
      unfolding e by (simp add: face_triangle_def triangle_entity_def Let_def)
    show "coord_1 (cfs ! (4 * i + t)) = triple_at c (faces ! i ! t)"
      unfolding e by (simp add: face_triangle_def triangle_entity_def Let_def)
    show "coord_2 (cfs ! (4 * i + t)) = triple_at c (faces ! i ! ((t + 1) mod 4))"
      unfolding e by (simp add: face_triangle_def triangle_entity_def Let_def)
    show "coord_3 (cfs ! (4 * i + t)) = barycenter c (faces ! i)"
      unfolding e by (simp add: face_triangle_def triangle_entity_def Let_def fictitious_node_eq)
    show "char_len (cfs ! (4 * i + t)) = longest_edge c (faces ! i)"
      unfolding e by (simp add: face_triangle_def triangle_entity_def Let_def max_edge_length_eq [OF ne])
    show "contact_entity_global_id (cfs ! (4 * i + t)) = ids ! i OR word_of_nat t"
      unfolding e by (simp add: face_triangle_def triangle_entity_def Let_def)
  qed
next
  assume "\<exists>f \<in> set faces. length f \<noteq> 4"
  then obtain i where "i < length faces" "length (faces ! i) \<noteq> 4"
    by (auto simp: in_set_conv_nth)
  then have "\<exists>i \<in> set [0..<length faces]. length (faces ! i) \<noteq> 4"
    by (intro bexI [of _ i]) simp_all
  then show "CreateContactNodesAndFaces c faces ids sec_ids sec_eids sec_cl cns0 cfs0 = Inl Abort"
    by (simp add: CreateContactNodesAndFaces_def primary_loop_abort)
qed

lemma barycenter_square: "barycenter square_coord [0, 1, 2, 3] = (1, 1, 0)"
  by (simp add: barycenter_def square_coord_def vec_at_def lessThan_nat_numeral lessThan_Suc)

lemma longest_edge_square: "longest_edge square_coord [0, 1, 2, 3] = 2"
  by (simp add: longest_edge_def edge_length_square_def square_coord_def vec_at_def
        lessThan_nat_numeral lessThan_Suc)

theorem CreateContactNodesAndFaces_triangles_witness:
  "(\<exists>cns cfs. CreateContactNodesAndFaces square_coord [[0, 1, 2, 3]] [288] [] [] Map.empty []
                  [blank_entity, blank_entity, blank_entity, blank_entity] = Inr (cns, cfs)
       \<and> contact_entity_global_id (cfs ! 3) = 291
       \<and> coord_1 (cfs ! 3) = (0, 2, 0) \<and> coord_2 (cfs ! 3) = (0, 0, 0)
       \<and> coord_3 (cfs ! 3) = (1, 1, 0) \<and> char_len (cfs ! 3) = 2)
   \<and> CreateContactNodesAndFaces square_coord [[0, 1, 2]] [288] [] [] Map.empty []
        [blank_entity, blank_entity, blank_entity, blank_entity] = Inl Abort"
proof -
  let ?b = "[blank_entity, blank_entity, blank_entity, blank_entity]"
  have h1: "length ?b = 4 * length [[0, 1, 2, 3::int]]" by simp
  have h1': "length ?b = 4 * length [[0, 1, 2::int]]" by simp
  have h2: "length ([]::ContactEntity list) = length ([]::int list)" by simp
  have h3: "length ([]::32 word list) = length ([]::int list)" by simp
  have h4: "set ([]::int list) \<subseteq> dom (Map.empty::int \<rightharpoonup> real)" by simp
  have four: "\<forall>f \<in> set [[0, 1, 2, 3::int]]. length f = 4" by simp
  have three: "\<exists>f \<in> set [[0, 1, 2::int]]. length f \<noteq> 4" by simp
  from CreateContactNodesAndFaces_triangles [OF h1 h2 h3 h4, of square_coord "[288]",
      THEN conjunct1, THEN mp, OF four]
  obtain cns cfs where
    r: "CreateContactNodesAndFaces square_coord [[0, 1, 2, 3]] [288] [] [] Map.empty [] ?b = Inr (cns, cfs)"
    and e: "\<forall>i<length [[0, 1, 2, 3::int]]. \<forall>t<4.
                    entity_type (cfs ! (4 * i + t)) = TRIANGLE
                  \<and> coord_1 (cfs ! (4 * i + t)) = triple_at square_coord ([[0, 1, 2, 3]] ! i ! t)
                  \<and> coord_2 (cfs ! (4 * i + t)) = triple_at square_coord ([[0, 1, 2, 3]] ! i ! ((t + 1) mod 4))
                  \<and> coord_3 (cfs ! (4 * i + t)) = barycenter square_coord ([[0, 1, 2, 3]] ! i)
                  \<and> char_len (cfs ! (4 * i + t)) = longest_edge square_coord ([[0, 1, 2, 3]] ! i)
                  \<and> contact_entity_global_id (cfs ! (4 * i + t)) = [288] ! i OR word_of_nat t"
    by blast
  have "contact_entity_global_id (cfs ! 3) = 291
       \<and> coord_1 (cfs ! 3) = (0, 2, 0) \<and> coord_2 (cfs ! 3) = (0, 0, 0)
       \<and> coord_3 (cfs ! 3) = (1, 1, 0) \<and> char_len (cfs ! 3) = 2"
  proof -
    have c: "triple_at square_coord 3 = (0, 2, 0)" "triple_at square_coord 0 = (0, 0, 0)"
      by (simp_all add: triple_at_def vec_at_def square_coord_def)
    show ?thesis using e [rule_format, of 0 3]
      by (simp add: barycenter_square longest_edge_square c)
  qed
  moreover have "CreateContactNodesAndFaces square_coord [[0, 1, 2]] [288] [] [] Map.empty [] ?b = Inl Abort"
    using CreateContactNodesAndFaces_triangles [OF h1' h2 h3 h4, of square_coord "[288]",
      THEN conjunct2, THEN mp, OF three] .
  ultimately show ?thesis using r by blast
qed

section \<open>Properties of the secondary contact nodes\<close>

lemma visit_face_fold:
  "visit_face c gids ids gh face st
   = fold (\<lambda>p. visit_node gids ids gh (snd p) (fst p))
          (map (\<lambda>n. (n, sqrt (max_edge_length_square c face))) face) st"
proof -
  have "fold (\<lambda>i. visit_node gids ids gh (sqrt (max_edge_length_square c face)) (face ! i)) [0..<length face] st
        = fold (visit_node gids ids gh (sqrt (max_edge_length_square c face))) (map (\<lambda>i. face ! i) [0..<length face]) st"
    by (simp add: fold_map comp_def)
  then show ?thesis by (simp add: visit_face_def Let_def map_nth fold_map comp_def)
qed

lemma secondary_nodes_fold:
  "secondary_nodes c gids ids gh faces
   = fold (\<lambda>p. visit_node gids ids gh (snd p) (fst p)) (face_visits c faces)
       \<lparr>secondary_node_ids = [], secondary_node_entity_ids = [], secondary_node_char_lens = Map.empty\<rparr>"
proof -
  have "fold (visit_face c gids ids gh) faces st
        = fold (\<lambda>p. visit_node gids ids gh (snd p) (fst p)) (face_visits c faces) st" for st
    by (induction faces arbitrary: st) (simp_all add: face_visits_def visit_face_fold)
  then show ?thesis by (simp add: secondary_nodes_def)
qed

lemma visits_invariant:
  fixes V :: "(int \<times> real) list" and gids :: "int \<Rightarrow> int" and ids gh :: "int list"
  defines "st \<equiv> fold (\<lambda>p. visit_node gids ids gh (snd p) (fst p)) V
       \<lparr>secondary_node_ids = [], secondary_node_entity_ids = [], secondary_node_char_lens = Map.empty\<rparr>"
  shows "distinct (secondary_node_ids st)
       \<and> set (secondary_node_ids st) = {n \<in> fst ` set V. n \<notin> set gh}
       \<and> secondary_node_entity_ids st
           = map (\<lambda>n. word_of_int (gids (vec_at ids n) + 1)) (secondary_node_ids st)
       \<and> (\<forall>n \<in> set (secondary_node_ids st).
             secondary_node_char_lens st n = Some (Max (snd ` {p \<in> set V. fst p = n})))"
  unfolding st_def
proof (induction V rule: rev_induct)
  case Nil
  then show ?case by simp
next
  case (snoc p V)
  obtain n l where p: "p = (n, l)" by (cases p)
  define st where "st = fold (\<lambda>p. visit_node gids ids gh (snd p) (fst p)) V
       \<lparr>secondary_node_ids = [], secondary_node_entity_ids = [], secondary_node_char_lens = Map.empty\<rparr>"
  have step: "fold (\<lambda>p. visit_node gids ids gh (snd p) (fst p)) (V @ [p])
       \<lparr>secondary_node_ids = [], secondary_node_entity_ids = [], secondary_node_char_lens = Map.empty\<rparr>
       = visit_node gids ids gh l n st"
    by (simp add: st_def p)
  from snoc.IH have d: "distinct (secondary_node_ids st)"
    and s: "set (secondary_node_ids st) = {n \<in> fst ` set V. n \<notin> set gh}"
    and e: "secondary_node_entity_ids st
           = map (\<lambda>n. word_of_int (gids (vec_at ids n) + 1)) (secondary_node_ids st)"
    and m: "\<forall>n \<in> set (secondary_node_ids st).
             secondary_node_char_lens st n = Some (Max (snd ` {p \<in> set V. fst p = n}))"
    unfolding st_def by blast+
  have other: "{q \<in> set (V @ [p]). fst q = k} = {q \<in> set V. fst q = k}" if "k \<noteq> n" for k
    using that by (auto simp: p)
  have same: "{q \<in> set (V @ [p]). fst q = n} = insert (n, l) {q \<in> set V. fst q = n}"
    by (auto simp: p)
  show ?case unfolding step
  proof (cases "n \<in> set gh")
    case True
    then have v: "visit_node gids ids gh l n st = st" by (simp add: visit_node_def)
    have "{k \<in> fst ` set (V @ [p]). k \<notin> set gh} = {k \<in> fst ` set V. k \<notin> set gh}"
      using True by (auto simp: p)
    moreover have "\<forall>k \<in> set (secondary_node_ids st). k \<noteq> n" using s True by auto
    ultimately show "distinct (secondary_node_ids (visit_node gids ids gh l n st))
       \<and> set (secondary_node_ids (visit_node gids ids gh l n st)) = {n \<in> fst ` set (V @ [p]). n \<notin> set gh}
       \<and> secondary_node_entity_ids (visit_node gids ids gh l n st)
           = map (\<lambda>n. word_of_int (gids (vec_at ids n) + 1)) (secondary_node_ids (visit_node gids ids gh l n st))
       \<and> (\<forall>n' \<in> set (secondary_node_ids (visit_node gids ids gh l n st)).
             secondary_node_char_lens (visit_node gids ids gh l n st) n' = Some (Max (snd ` {p' \<in> set (V @ [p]). fst p' = n'})))"
      unfolding v using d s e m other by simp
  next
    case False
    show "distinct (secondary_node_ids (visit_node gids ids gh l n st))
       \<and> set (secondary_node_ids (visit_node gids ids gh l n st)) = {n \<in> fst ` set (V @ [p]). n \<notin> set gh}
       \<and> secondary_node_entity_ids (visit_node gids ids gh l n st)
           = map (\<lambda>n. word_of_int (gids (vec_at ids n) + 1)) (secondary_node_ids (visit_node gids ids gh l n st))
       \<and> (\<forall>n' \<in> set (secondary_node_ids (visit_node gids ids gh l n st)).
             secondary_node_char_lens (visit_node gids ids gh l n st) n' = Some (Max (snd ` {p' \<in> set (V @ [p]). fst p' = n'})))"
    proof (cases "n \<in> set (secondary_node_ids st)")
      case new: False
      then have nv: "n \<notin> fst ` set V" using s False by auto
      then have emp: "{q \<in> set V. fst q = n} = {}" by force
      have mx: "Max (snd ` {q \<in> set (V @ [p]). fst q = n}) = l" unfolding same emp by simp
      have sets: "{k \<in> fst ` set (V @ [p]). k \<notin> set gh} = insert n {k \<in> fst ` set V. k \<notin> set gh}"
        using False by (auto simp: p)
      have v: "visit_node gids ids gh l n st =
                st\<lparr>secondary_node_ids := secondary_node_ids st @ [n],
                   secondary_node_entity_ids := secondary_node_entity_ids st @ [word_of_int (gids (vec_at ids n) + 1)],
                   secondary_node_char_lens := (secondary_node_char_lens st)(n \<mapsto> l)\<rparr>"
        using False new by (simp add: visit_node_def)
      show ?thesis unfolding v sets using d s e m new mx other by auto
    next
      case old: True
      then obtain l0 where l0: "secondary_node_char_lens st n = Some l0"
        and l0m: "l0 = Max (snd ` {p \<in> set V. fst p = n})" using m by auto
      have "n \<in> fst ` set V" using old s by auto
      then have ne: "snd ` {q \<in> set V. fst q = n} \<noteq> {}" by force
      have fin: "finite (snd ` {q \<in> set V. fst q = n})" by simp
      have mx: "Max (snd ` {q \<in> set (V @ [p]). fst q = n}) = max l l0"
        unfolding same l0m using ne fin by simp
      have sets: "{k \<in> fst ` set (V @ [p]). k \<notin> set gh} = {k \<in> fst ` set V. k \<notin> set gh}"
        using old s by (auto simp: p)
      have ids: "secondary_node_ids (visit_node gids ids gh l n st) = secondary_node_ids st"
        and eids: "secondary_node_entity_ids (visit_node gids ids gh l n st) = secondary_node_entity_ids st"
        and cl_n: "secondary_node_char_lens (visit_node gids ids gh l n st) n = Some (max l l0)"
        and cl_o: "\<And>k. k \<noteq> n \<Longrightarrow> secondary_node_char_lens (visit_node gids ids gh l n st) k
                                  = secondary_node_char_lens st k"
        using False old l0 by (auto simp: visit_node_def max_def)
      show ?thesis unfolding ids eids sets
      proof (intro conjI ballI)
        fix k assume k: "k \<in> set (secondary_node_ids st)"
        show "secondary_node_char_lens (visit_node gids ids gh l n st) k
              = Some (Max (snd ` {p' \<in> set (V @ [p]). fst p' = k}))"
        proof (cases "k = n")
          case True
          then show ?thesis using cl_n mx by simp
        next
          case False
          then show ?thesis using cl_o m k other by simp
        qed
      qed (use d s e in simp_all)
    qed
  qed
qed

lemma fst_face_visits: "fst ` set (face_visits c faces) = \<Union> (set ` set faces)"
  by (auto simp: face_visits_def image_iff)

lemma snd_face_visits:
  "snd ` {p \<in> set (face_visits c faces). fst p = n} = longest_edge c ` {f \<in> set faces. n \<in> set f}"
proof -
  have "snd ` {p \<in> set (face_visits c faces). fst p = n}
        = (\<lambda>f. sqrt (max_edge_length_square c f)) ` {f \<in> set faces. n \<in> set f}"
    by (auto simp: face_visits_def image_iff)
  also have "\<dots> = longest_edge c ` {f \<in> set faces. n \<in> set f}"
    by (intro image_cong refl sqrt_max_edge_length_square_eq) auto
  finally show ?thesis .
qed

text \<open>
  C8. The loop over the secondary skin faces records every node of these faces that is
  not ghosted exactly once and no ghosted node; the entity id of a recorded node is the
  global id of its mesh node plus 1; and the characteristic length kept for it is the
  largest, over the secondary faces that contain it, of the longest edge of the face.
\<close>

theorem secondary_nodes_recorded:
  "distinct (secondary_node_ids (secondary_nodes c gids ids ghosted faces))
   \<and> set (secondary_node_ids (secondary_nodes c gids ids ghosted faces))
       = {n \<in> \<Union> (set ` set faces). n \<notin> set ghosted}
   \<and> secondary_node_entity_ids (secondary_nodes c gids ids ghosted faces)
       = map (\<lambda>n. word_of_int (gids (vec_at ids n) + 1))
             (secondary_node_ids (secondary_nodes c gids ids ghosted faces))
   \<and> (\<forall>n \<in> set (secondary_node_ids (secondary_nodes c gids ids ghosted faces)).
         secondary_node_char_lens (secondary_nodes c gids ids ghosted faces) n
         = Some (Max (longest_edge c ` {f \<in> set faces. n \<in> set f})))"
  using visits_invariant [of gids ids ghosted "face_visits c faces"]
  unfolding secondary_nodes_fold fst_face_visits snd_face_visits .

lemma longest_edge_wide: "longest_edge square_coord [1, 4, 5, 2] = 4"
  by (simp add: longest_edge_def edge_length_square_def square_coord_def vec_at_def
        lessThan_nat_numeral lessThan_Suc)

lemma visit_node_simps:
  "visit_node gids ids gh l n \<lparr>secondary_node_ids = a, secondary_node_entity_ids = b, secondary_node_char_lens = m\<rparr>
   = (if n \<notin> set gh then
        if n \<notin> set a then \<lparr>secondary_node_ids = a @ [n], secondary_node_entity_ids = b @ [word_of_int (gids (vec_at ids n) + 1)], secondary_node_char_lens = m(n \<mapsto> l)\<rparr>
        else (case m n of Some l0 \<Rightarrow> if l0 < l then \<lparr>secondary_node_ids = a, secondary_node_entity_ids = b, secondary_node_char_lens = m(n \<mapsto> l)\<rparr>
                                  else \<lparr>secondary_node_ids = a, secondary_node_entity_ids = b, secondary_node_char_lens = m\<rparr>
              | None \<Rightarrow> \<lparr>secondary_node_ids = a, secondary_node_entity_ids = b, secondary_node_char_lens = m(n \<mapsto> (if 0 < l then l else 0))\<rparr>)
      else \<lparr>secondary_node_ids = a, secondary_node_entity_ids = b, secondary_node_char_lens = m\<rparr>)"
  by (simp add: visit_node_def split: option.splits)

theorem secondary_nodes_recorded_witness:
  "secondary_node_ids (secondary_nodes square_coord (\<lambda>n. 10 * n) [0, 1, 2, 3, 4, 5] [0]
                         [[0, 1, 2, 3], [1, 4, 5, 2]]) = [1, 2, 3, 4, 5]
   \<and> secondary_node_entity_ids (secondary_nodes square_coord (\<lambda>n. 10 * n) [0, 1, 2, 3, 4, 5] [0]
                                   [[0, 1, 2, 3], [1, 4, 5, 2]]) = [11, 21, 31, 41, 51]
   \<and> secondary_node_char_lens (secondary_nodes square_coord (\<lambda>n. 10 * n) [0, 1, 2, 3, 4, 5] [0]
                                  [[0, 1, 2, 3], [1, 4, 5, 2]]) 1 = Some 4
   \<and> secondary_node_char_lens (secondary_nodes square_coord (\<lambda>n. 10 * n) [0, 1, 2, 3, 4, 5] [0]
                                  [[0, 1, 2, 3], [1, 4, 5, 2]]) 3 = Some 2"
proof -
  let ?R = "secondary_nodes square_coord (\<lambda>n. 10 * n) [0, 1, 2, 3, 4, 5] [0] [[0, 1, 2, 3], [1, 4, 5, 2]]"
  note t = secondary_nodes_recorded [of square_coord "\<lambda>n. 10 * n" "[0, 1, 2, 3, 4, 5]" "[0]"
                 "[[0, 1, 2, 3], [1, 4, 5, 2]]"]
  have i: "secondary_node_ids ?R = [1, 2, 3, 4, 5]"
    by (simp add: secondary_nodes_def visit_face_def visit_node_simps upt_rec Let_def)
  have f1: "{f \<in> set [[0, 1, 2, 3], [1, 4, 5, 2::int]]. 1 \<in> set f} = {[0, 1, 2, 3], [1, 4, 5, 2]}"
    by auto
  have f3: "{f \<in> set [[0, 1, 2, 3], [1, 4, 5, 2::int]]. 3 \<in> set f} = {[0, 1, 2, 3]}"
    by auto
  have e: "secondary_node_entity_ids ?R = [11, 21, 31, 41, 51]"
    using t [THEN conjunct2, THEN conjunct2, THEN conjunct1] by (simp add: i vec_at_def)
  have m1: "1 \<in> set (secondary_node_ids ?R)" and m3: "3 \<in> set (secondary_node_ids ?R)"
    by (simp_all add: i)
  note t4 = t [THEN conjunct2, THEN conjunct2, THEN conjunct2, rule_format]
  have c1: "secondary_node_char_lens ?R 1 = Some 4"
    using t4 [OF m1, unfolded f1] by (simp add: longest_edge_square longest_edge_wide)
  have c3: "secondary_node_char_lens ?R 3 = Some 2"
    using t4 [OF m3, unfolded f3] by (simp add: longest_edge_square)
  from i e c1 c3 show ?thesis by simp
qed

section \<open>Properties of the entity ids\<close>

lemma face_corners_shape: "ordinal < 6 \<Longrightarrow> length (face_corners ! ordinal) = 4"
proof -
  assume "ordinal < 6"
  then consider "ordinal = 0" | "ordinal = 1" | "ordinal = 2" | "ordinal = 3" | "ordinal = 4" | "ordinal = 5"
    by arith
  then show ?thesis by cases (simp_all add: face_corners_def)
qed

lemma all_faces_shape:
  assumes "f \<in> set (all_faces mesh block_ids)"
  shows "length (fst f) = 4 \<and> snd (snd f) < 6"
  using assms
  by (auto simp: all_faces_def block_faces_def element_faces_def corner_nodes_def face_corners_shape)

lemma ordinal_mask: "ordinal < 6 \<Longrightarrow> (word_of_int (int ordinal) :: 32 word) AND 7 = word_of_int (int ordinal)"
proof -
  assume "ordinal < 6"
  then consider "ordinal = 0" | "ordinal = 1" | "ordinal = 2" | "ordinal = 3" | "ordinal = 4" | "ordinal = 5"
    by arith
  then show ?thesis by cases simp_all
qed

lemma triangle_mask: "t < 4 \<Longrightarrow> (word_of_int (int t) :: 32 word) AND 3 = word_of_nat t"
proof -
  assume "t < 4"
  then consider "t = 0" | "t = 1" | "t = 2" | "t = 3" by arith
  then show ?thesis by cases simp_all
qed

lemma skin_entity_id_packed:
  assumes "length ns = 4" and "ordinal < 6"
  shows "skin_entity_id off (face_value (ns, e, ordinal)) = packed_entity_id (e + off) (int ordinal) 0"
proof -
  obtain a b c d where ns: "ns = [a, b, c, d]"
    using assms(1) by (auto simp: length_Suc_conv eval_nat_numeral)
  show ?thesis
    unfolding packed_entity_id_def ordinal_mask [OF assms(2)]
    by (simp add: ns skin_entity_id_def face_value_def)
qed

lemma packed_or_ordinal:
  assumes "t < 4"
  shows "packed_entity_id x ordinal 0 OR word_of_nat t = packed_entity_id x ordinal (int t)"
  unfolding packed_entity_id_def triangle_mask [OF assms] by (simp add: or.assoc)

lemma secondary_loop_ids:
  assumes "secondary_loop c sec_ids sec_eids sec_cl is cns0 = Inr cns" and "distinct is"
    and "\<forall>i \<in> set is. i < length cns0"
  shows "(\<forall>i \<in> set is. contact_entity_global_id (cns ! i) = sec_eids ! i)
       \<and> (\<forall>j. j \<notin> set is \<longrightarrow> cns ! j = cns0 ! j) \<and> length cns = length cns0"
  using assms
proof (induction "is" arbitrary: cns0)
  case Nil
  then show ?case by simp
next
  case (Cons i "is")
  from Cons.prems(1) obtain l where l: "sec_cl (sec_ids ! i) = Some l"
    by (auto simp: Let_def split: if_splits option.splits)
  let ?e = "node_entity (sec_eids ! i) i (triple_at c (sec_ids ! i)) l (sec_ids ! i)"
  have r: "secondary_loop c sec_ids sec_eids sec_cl is (cns0[i := ?e]) = Inr cns"
    using Cons.prems(1) l by (simp add: Let_def split: if_splits)
  have "distinct is" and ni: "i \<notin> set is" using Cons.prems(2) by simp_all
  moreover have "\<forall>j \<in> set is. j < length (cns0[i := ?e])" using Cons.prems(3) by simp
  ultimately have ih: "(\<forall>j \<in> set is. contact_entity_global_id (cns ! j) = sec_eids ! j)
       \<and> (\<forall>j. j \<notin> set is \<longrightarrow> cns ! j = (cns0[i := ?e]) ! j) \<and> length cns = length (cns0[i := ?e])"
    using Cons.IH [OF r] by blast
  have "i < length cns0" using Cons.prems(3) by simp
  then have "cns ! i = ?e" using ih ni by simp
  then have "contact_entity_global_id (cns ! i) = sec_eids ! i" by (simp add: node_entity_def)
  then show ?case using ih by (auto simp: nth_list_update)
qed

lemma create_faces_ids:
  assumes "CreateContactNodesAndFaces c faces ids sec_ids sec_eids sec_cl cns0 cfs0 = Inr (cns, cfs)"
    and "length cfs0 = 4 * length faces" and "length cns0 = length sec_ids"
  shows "(\<forall>i<length faces. \<forall>t<4. contact_entity_global_id (cfs ! (4 * i + t)) = ids ! i OR word_of_nat t)
       \<and> (\<forall>j<length sec_ids. contact_entity_global_id (cns ! j) = sec_eids ! j)"
proof -
  from assms(1) obtain st where
    p: "primary_loop c faces ids [0..<length faces] (cfs0, 0) = Inr st"
    by (auto simp: CreateContactNodesAndFaces_def split: sum.splits)
  have four: "\<forall>i \<in> set [0..<length faces]. length (faces ! i) = 4"
  proof (rule ccontr)
    assume "\<not> (\<forall>i \<in> set [0..<length faces]. length (faces ! i) = 4)"
    then have "primary_loop c faces ids [0..<length faces] (cfs0, 0) = Inl Abort"
      by (intro primary_loop_abort) blast
    with p show False by simp
  qed
  have "0 + 4 * length [0..<length faces] \<le> length cfs0" using assms(2) by simp
  with four obtain cfs' where
    p': "primary_loop c faces ids [0..<length faces] (cfs0, 0)
        = Inr (cfs', 0 + 4 * length [0..<length faces])"
    and new: "\<forall>p<length [0..<length faces]. \<forall>t<4. cfs' ! (0 + 4 * p + t)
                = face_triangle c (faces ! ([0..<length faces] ! p)) (ids ! ([0..<length faces] ! p))
                    t t ((t + 1) mod 4) (0 + 4 * p + t)"
    using primary_loop_ok [of "[0..<length faces]" faces 0 cfs0 c ids] by blast
  from assms(1) p' have s: "secondary_loop c sec_ids sec_eids sec_cl [0..<length sec_ids] cns0 = Inr cns"
    and cfs: "cfs = cfs'"
    by (auto simp: CreateContactNodesAndFaces_def split: sum.splits)
  have a: "contact_entity_global_id (cfs ! (4 * i + t)) = ids ! i OR word_of_nat t"
    if "i < length faces" "t < 4" for i t
    using new [rule_format, of i t] that
    by (simp add: cfs face_triangle_def triangle_entity_def Let_def)
  have "\<forall>i \<in> set [0..<length sec_ids]. i < length cns0" using assms(3) by simp
  from secondary_loop_ids [OF s _ this]
  have b: "\<forall>i \<in> set [0..<length sec_ids]. contact_entity_global_id (cns ! i) = sec_eids ! i" by simp
  from a b show ?thesis by simp
qed


lemma SkinBlocks_ids:
  assumes "SkinBlocks mesh block_ids off = Inr (skin_faces, entity_ids)"
  shows "skin_faces = map fst (skin_occurrences (all_faces mesh block_ids))
       \<and> entity_ids = map (\<lambda>f. packed_entity_id (fst (snd f) + off) (int (snd (snd f))) 0)
                          (skin_occurrences (all_faces mesh block_ids))"
proof -
  have sub: "set (skin_occurrences (all_faces mesh block_ids)) \<subseteq> set (all_faces mesh block_ids)"
    by (auto simp: set_skin_occurrences)
  have "skin_entity_id off (face_value f) = packed_entity_id (fst (snd f) + off) (int (snd (snd f))) 0"
    if "f \<in> set (skin_occurrences (all_faces mesh block_ids))" for f
  proof -
    obtain ns e ordinal where f: "f = (ns, e, ordinal)" by (cases f)
    have "length ns = 4 \<and> ordinal < 6" using all_faces_shape [of f mesh block_ids] that sub f by auto
    then show ?thesis by (simp add: f skin_entity_id_packed)
  qed
  then have meq: "map (\<lambda>f. skin_entity_id off (face_value f)) (skin_occurrences (all_faces mesh block_ids))
             = map (\<lambda>f. packed_entity_id (fst (snd f) + off) (int (snd (snd f))) 0)
                   (skin_occurrences (all_faces mesh block_ids))"
    by (intro map_cong refl)
  have r: "skin_faces = map fst (skin_occurrences (all_faces mesh block_ids))"
    "entity_ids = map (\<lambda>f. skin_entity_id off (face_value f)) (skin_occurrences (all_faces mesh block_ids))"
    using assms by (auto simp: SkinBlocks_eq split: if_splits)
  show ?thesis by (simp only: r meq simp_thms)
qed

text \<open>
  The ids in the 32-bit arithmetic of the code. Every entity id that \<^verbatim>\<open>SkinBlocks\<close> emits
  is the 32-bit value \<open>packed_entity_id\<close> for the skin face it belongs to, with triangle
  ordinal 0: (1-based element global id + offset) shifted left by 5, or-ed with the face
  ordinal shifted left by 2. For every such id that reaches
  \<^verbatim>\<open>CreateContactNodesAndFaces\<close>, the four triangles of the face carry the same value with
  the triangle ordinals 0, 1, 2, 3. A contact node carries the global id of its mesh node
  plus 1.
\<close>

lemma entity_ids_32_bit:
  assumes "SkinBlocks mesh block_ids off = Inr (skin_faces, entity_ids)"
    and "set ids \<subseteq> set entity_ids"
    and "length faces = length ids"
    and "length cfs0 = 4 * length faces"
    and "length cns0 = length (secondary_node_ids sec)"
    and "sec = secondary_nodes c' gids nids ghosted secondary_faces"
    and "CreateContactNodesAndFaces c faces ids (secondary_node_ids sec) (secondary_node_entity_ids sec)
           (secondary_node_char_lens sec) cns0 cfs0 = Inr (cns, cfs)"
  shows "entity_ids = map (\<lambda>f. packed_entity_id (fst (snd f) + off) (int (snd (snd f))) 0)
                          (skin_occurrences (all_faces mesh block_ids))
       \<and> (\<forall>i<length ids. \<exists>f \<in> set (skin_occurrences (all_faces mesh block_ids)).
             ids ! i = packed_entity_id (fst (snd f) + off) (int (snd (snd f))) 0
           \<and> (\<forall>t<4. contact_entity_global_id (cfs ! (4 * i + t))
                      = packed_entity_id (fst (snd f) + off) (int (snd (snd f))) (int t)))
       \<and> (\<forall>j<length (secondary_node_ids sec).
             contact_entity_global_id (cns ! j)
             = word_of_int (gids (vec_at nids (secondary_node_ids sec ! j)) + 1))"
proof (intro conjI allI impI)
  note sk = SkinBlocks_ids [OF assms(1)]
  note cr = create_faces_ids [OF assms(7) assms(4) assms(5)]
  show e: "entity_ids = map (\<lambda>f. packed_entity_id (fst (snd f) + off) (int (snd (snd f))) 0)
                          (skin_occurrences (all_faces mesh block_ids))"
    using sk by simp
  {
    fix i assume i: "i < length ids"
    then have "ids ! i \<in> set entity_ids" using assms(2) by (auto simp: subset_iff)
    then obtain f where f: "f \<in> set (skin_occurrences (all_faces mesh block_ids))"
      and id: "ids ! i = packed_entity_id (fst (snd f) + off) (int (snd (snd f))) 0"
      unfolding e by auto
    have "contact_entity_global_id (cfs ! (4 * i + t))
            = packed_entity_id (fst (snd f) + off) (int (snd (snd f))) (int t)" if "t < 4" for t
      using cr [THEN conjunct1, rule_format, of i t] i that assms(3)
      by (simp add: id packed_or_ordinal)
    with f id show "\<exists>f \<in> set (skin_occurrences (all_faces mesh block_ids)).
             ids ! i = packed_entity_id (fst (snd f) + off) (int (snd (snd f))) 0
           \<and> (\<forall>t<4. contact_entity_global_id (cfs ! (4 * i + t))
                      = packed_entity_id (fst (snd f) + off) (int (snd (snd f))) (int t))"
      by blast
  }
  {
    fix j assume j: "j < length (secondary_node_ids sec)"
    have "secondary_node_entity_ids sec
          = map (\<lambda>n. word_of_int (gids (vec_at nids n) + 1)) (secondary_node_ids sec)"
      unfolding assms(6) secondary_nodes_fold
      using visits_invariant [of gids nids ghosted "face_visits c' secondary_faces"] by blast
    then have "secondary_node_entity_ids sec ! j
               = word_of_int (gids (vec_at nids (secondary_node_ids sec ! j)) + 1)"
      using j by simp
    then show "contact_entity_global_id (cns ! j)
             = word_of_int (gids (vec_at nids (secondary_node_ids sec ! j)) + 1)"
      using cr [THEN conjunct2, rule_format, OF j] by simp
  }
qed


lemma create_returns:
  assumes "\<forall>f \<in> set faces. length f = 4" and "length cfs0 = 4 * length faces"
    and "length cns0 = length (secondary_node_ids sec)"
    and "sec = secondary_nodes c' gids nids ghosted secondary_faces"
  shows "\<exists>cns cfs. CreateContactNodesAndFaces c faces ids (secondary_node_ids sec)
           (secondary_node_entity_ids sec) (secondary_node_char_lens sec) cns0 cfs0 = Inr (cns, cfs)"
proof -
  have "\<forall>i \<in> set [0..<length faces]. length (faces ! i) = 4" using assms(1) by simp
  moreover have "0 + 4 * length [0..<length faces] \<le> length cfs0" using assms(2) by simp
  ultimately obtain cfs where
    p: "primary_loop c faces ids [0..<length faces] (cfs0, 0)
        = Inr (cfs, 0 + 4 * length [0..<length faces])"
    using primary_loop_ok [of "[0..<length faces]" faces 0 cfs0 c ids] by blast
  note inv = visits_invariant [of gids nids ghosted "face_visits c' secondary_faces",
      folded secondary_nodes_fold, folded assms(4)]
  have "length (secondary_node_entity_ids sec) = length (secondary_node_ids sec)"
    using inv by simp
  moreover have "\<forall>n \<in> set (secondary_node_ids sec). n \<in> dom (secondary_node_char_lens sec)"
    using inv by blast
  ultimately have "\<forall>i \<in> set [0..<length (secondary_node_ids sec)].
          i < length (secondary_node_entity_ids sec) \<and> i < length cns0
          \<and> secondary_node_ids sec ! i \<in> dom (secondary_node_char_lens sec)"
    using assms(3) by simp
  then obtain cns where
    s: "secondary_loop c (secondary_node_ids sec) (secondary_node_entity_ids sec)
          (secondary_node_char_lens sec) [0..<length (secondary_node_ids sec)] cns0 = Inr cns"
    using secondary_loop_ok [of "[0..<length (secondary_node_ids sec)]" "secondary_node_entity_ids sec"
        cns0 "secondary_node_ids sec" "secondary_node_char_lens sec" c] by auto
  show ?thesis using p s by (simp add: CreateContactNodesAndFaces_def)
qed

lemma SkinBlocks_one_hex:
  "SkinBlocks one_hex [1] 8
   = Inr ([[0, 3, 2, 1], [0, 1, 5, 4], [0, 4, 7, 3], [1, 2, 6, 5], [2, 3, 7, 6], [4, 5, 6, 7]],
          [304, 288, 300, 292, 296, 308])"
  by code_simp

text \<open>
  C6. The packed ids are not unique over all element global ids that an \<^verbatim>\<open>int\<close> can
  hold: \<^verbatim>\<open>entity_id\<close> is a 32-bit \<^verbatim>\<open>int\<close>, not the 64 bits that the comments at
  lines 949-953 give it (59 bits for the element id plus offset, 3 for the face ordinal,
  2 for the triangle ordinal), so the shift by 5 drops the top bits. With the offset 15
  (the largest node global id) the elements with the global ids 0 and \<open>2\<^sup>2\<^sup>7\<close> get the same
  six face ids.
\<close>

theorem SkinBlocks_ids_collide:
  "map_sum id snd (SkinBlocks far_hexes [1] 15)
   = Inr [528, 512, 524, 516, 520, 532, 528, 512, 524, 516, 520, 532]"
  by code_simp

text \<open>
  Within 32 bits the packing is sound: where the element id plus the offset is
  non-negative and below \<open>2\<^sup>2\<^sup>7\<close>, the bits of the packed id are those of the number
  \<open>32 (e + offset) + 4 ordinal + triangle\<close>, different triples give different ids, and no
  face id is the id \<open>g + 1\<close> of a contact node whose global id \<open>g\<close> is at most the offset.
\<close>

lemma mask_values: "(7 :: 32 word) = mask 3" "(3 :: 32 word) = mask 2"
  by (simp_all add: mask_eq_exp_minus_1)

lemma packed_drop: "drop_bit 5 (packed_entity_id x ordinal t) = take_bit 27 (word_of_int x)"
  unfolding packed_entity_id_def mask_values
  by (rule bit_word_eqI) (auto simp: bit_simps)

lemma packed_middle: "take_bit 3 (drop_bit 2 (packed_entity_id x ordinal t)) = take_bit 3 (word_of_int ordinal)"
  unfolding packed_entity_id_def mask_values
  by (rule bit_word_eqI) (auto simp: bit_simps)

lemma packed_low: "take_bit 2 (packed_entity_id x ordinal t) = take_bit 2 (word_of_int t)"
  unfolding packed_entity_id_def mask_values
  by (rule bit_word_eqI) (auto simp: bit_simps)

lemma take_bit_word_of_int_inj:
  assumes "0 \<le> a" "a < 2 ^ k" "0 \<le> b" "b < 2 ^ k" "k \<le> 32"
    and "take_bit k (word_of_int a :: 32 word) = take_bit k (word_of_int b)"
  shows "a = b"
proof -
  have r: "uint (take_bit k (word_of_int c :: 32 word)) = c" if "0 \<le> c" "c < 2 ^ k" for c
  proof -
    have "(2::int) ^ k \<le> 2 ^ 32" using assms(5) by (intro power_increasing) simp_all
    with that(2) have "c < 2 ^ 32" by (rule less_le_trans)
    with that(1) have "take_bit 32 c = c" by (rule take_bit_int_eq_self)
    moreover have "uint (word_of_int c :: 32 word) = take_bit LENGTH(32) c"
      by (rule uint_word_of_int_eq)
    moreover have "LENGTH(32) = 32" by simp
    ultimately have u: "uint (word_of_int c :: 32 word) = c" by (simp only:)
    from that have "take_bit k c = c" by (rule take_bit_int_eq_self)
    then show ?thesis by (simp only: unsigned_take_bit_eq u)
  qed
  have "a = uint (take_bit k (word_of_int a :: 32 word))" using r [OF assms(1,2)] by (rule sym)
  also have "\<dots> = uint (take_bit k (word_of_int b :: 32 word))" by (simp only: assms(6))
  also have "\<dots> = b" by (rule r [OF assms(3,4)])
  finally show ?thesis .
qed

lemma packed_entity_id_inj:
  assumes "0 \<le> x" "x < 2 ^ 27" "0 \<le> x'" "x' < 2 ^ 27"
    and "0 \<le> ordinal" "ordinal < 8" "0 \<le> ordinal'" "ordinal' < 8"
    and "0 \<le> t" "t < 4" "0 \<le> t'" "t' < 4"
    and "packed_entity_id x ordinal t = packed_entity_id x' ordinal' t'"
  shows "x = x' \<and> ordinal = ordinal' \<and> t = t'"
proof (intro conjI)
  have "take_bit 27 (word_of_int x :: 32 word) = take_bit 27 (word_of_int x')"
    using arg_cong [OF assms(13), of "drop_bit 5"] by (simp only: packed_drop)
  then show "x = x'" using assms(1-4) by (intro take_bit_word_of_int_inj [of x 27 x']) simp_all
  have "take_bit 3 (word_of_int ordinal :: 32 word) = take_bit 3 (word_of_int ordinal')"
    using arg_cong [OF assms(13), of "\<lambda>w. take_bit 3 (drop_bit 2 w)"] by (simp only: packed_middle)
  then show "ordinal = ordinal'" using assms(5-8) by (intro take_bit_word_of_int_inj [of ordinal 3 ordinal']) simp_all
  have "take_bit 2 (word_of_int t :: 32 word) = take_bit 2 (word_of_int t')"
    using arg_cong [OF assms(13), of "take_bit 2"] by (simp only: packed_low)
  then show "t = t'" using assms(9-12) by (intro take_bit_word_of_int_inj [of t 2 t']) simp_all
qed


lemma uint_word_of_int_small:
  assumes "0 \<le> c" "c < 2 ^ 27"
  shows "uint (word_of_int c :: 32 word) = c"
proof -
  have "(2::int) ^ 27 \<le> 2 ^ 32" by (intro power_increasing) simp_all
  with assms(2) have "c < 2 ^ 32" by (rule less_le_trans)
  with assms(1) have "take_bit 32 c = c" by (rule take_bit_int_eq_self)
  moreover have "uint (word_of_int c :: 32 word) = take_bit LENGTH(32) c"
    by (rule uint_word_of_int_eq)
  moreover have "LENGTH(32) = 32" by simp
  ultimately show ?thesis by (simp only:)
qed

lemma node_id_not_face_id:
  assumes "0 \<le> g" "g \<le> off" "1 \<le> e" "e + off < 2 ^ 27"
  shows "(word_of_int (g + 1) :: 32 word) \<noteq> packed_entity_id (e + off) ordinal t"
proof
  assume eq: "(word_of_int (g + 1) :: 32 word) = packed_entity_id (e + off) ordinal t"
  have g1: "0 \<le> g + 1" "g + 1 < 2 ^ 27" using assms by linarith+
  have eo: "0 \<le> e + off" using assms by linarith
  have "drop_bit 5 (word_of_int (g + 1) :: 32 word) = take_bit 27 (word_of_int (e + off))"
    using arg_cong [OF eq, of "drop_bit 5"] by (simp only: packed_drop)
  then have "uint (drop_bit 5 (word_of_int (g + 1) :: 32 word))
             = uint (take_bit 27 (word_of_int (e + off) :: 32 word))" by (simp only:)
  moreover have tb: "take_bit LENGTH(32) (g + 1) = g + 1"
  proof -
    have "(2::int) ^ 27 \<le> 2 ^ 32" by (intro power_increasing) simp_all
    with g1(2) have "g + 1 < 2 ^ 32" by (rule less_le_trans)
    with g1(1) have "take_bit 32 (g + 1) = g + 1" by (rule take_bit_int_eq_self)
    moreover have "LENGTH(32) = 32" by simp
    ultimately show ?thesis by (simp only:)
  qed
  ultimately have "drop_bit 5 (g + 1) = take_bit 27 (e + off)"
    by (simp only: unsigned_drop_bit_eq unsigned_take_bit_eq uint_word_of_int_small [OF g1]
          uint_word_of_int_small [OF eo assms(4)])
  moreover have "take_bit 27 (e + off) = e + off" using eo assms(4) by (rule take_bit_int_eq_self)
  moreover have "drop_bit 5 (g + 1) = (g + 1) div 2 ^ 5" by (rule drop_bit_eq_div)
  ultimately have "(g + 1) div 2 ^ 5 = e + off" by (simp only:)
  moreover have "(g + 1) div 2 ^ 5 \<le> g" using assms(1) by simp
  ultimately show False using assms(2,3) by linarith
qed


lemma uint_take_bit_word_of_int:
  assumes "0 \<le> c" "c < 2 ^ k" "k \<le> 27"
  shows "uint (take_bit k (word_of_int c :: 32 word)) = c"
proof -
  have "(2::int) ^ k \<le> 2 ^ 27" using assms(3) by (intro power_increasing) simp_all
  with assms(2) have "c < 2 ^ 27" by (rule less_le_trans)
  with assms(1) have u: "uint (word_of_int c :: 32 word) = c" by (rule uint_word_of_int_small)
  from assms(1,2) have "take_bit k c = c" by (rule take_bit_int_eq_self)
  then show ?thesis by (simp only: unsigned_take_bit_eq u)
qed

lemma packed_entity_id_value:
  assumes "0 \<le> x" "x < 2 ^ 27" "0 \<le> ordinal" "ordinal < 8" "0 \<le> t" "t < 4"
  shows "uint (packed_entity_id x ordinal t) = 32 * x + 4 * ordinal + t"
proof -
  define w where "w = packed_entity_id x ordinal t"
  define U where "U = uint w"
  have tbU: "take_bit LENGTH(32) U = U" unfolding U_def
    by (rule take_bit_int_eq_self) (use uint_lt2p [of w] in simp_all)
  have a: "uint (drop_bit 5 w) = x"
    unfolding w_def packed_drop using assms(1,2) by (intro uint_take_bit_word_of_int) simp_all
  have b: "uint (take_bit 3 (drop_bit 2 w)) = ordinal"
    unfolding w_def packed_middle using assms(3,4) by (intro uint_take_bit_word_of_int) simp_all
  have c: "uint (take_bit 2 w) = t"
    unfolding w_def packed_low using assms(5,6) by (intro uint_take_bit_word_of_int) simp_all
  have a': "uint (drop_bit 5 w) = U div 32"
    by (subst unsigned_drop_bit_eq) (simp only: U_def [symmetric] tbU drop_bit_eq_div, simp)
  have b': "uint (take_bit 3 (drop_bit 2 w)) = (U div 4) mod 8"
  proof -
    have "uint (take_bit 3 (drop_bit 2 w)) = take_bit 3 (drop_bit 2 (take_bit LENGTH(32) U))"
      unfolding U_def by (subst unsigned_take_bit_eq, subst unsigned_drop_bit_eq) (rule refl)
    also have "\<dots> = take_bit 3 (drop_bit 2 U)" by (simp only: tbU)
    also have "\<dots> = (U div 4) mod 8" by (simp only: drop_bit_eq_div take_bit_eq_mod) simp
    finally show ?thesis .
  qed
  have c': "uint (take_bit 2 w) = U mod 4"
    by (subst unsigned_take_bit_eq) (simp only: U_def [symmetric] take_bit_eq_mod, simp)
  have a2: "U div 32 = x" by (rule trans [OF a' [symmetric] a])
  have b2: "(U div 4) mod 8 = ordinal" by (rule trans [OF b' [symmetric] b])
  have c2: "U mod 4 = t" by (rule trans [OF c' [symmetric] c])
  have "U = 32 * (U div 32) + 4 * ((U div 4) mod 8) + U mod 4"
  proof -
    have "U div 4 = 8 * (U div 4 div 8) + (U div 4) mod 8" by simp
    moreover have "U div 4 div 8 = U div 32" by (simp add: div_mult2_eq [symmetric])
    moreover have "U = 4 * (U div 4) + U mod 4" by simp
    ultimately show ?thesis by linarith
  qed
  then have "U = 32 * x + 4 * ordinal + t" by (simp only: a2 b2 c2)
  then show ?thesis unfolding U_def w_def .
qed

text \<open>
  The id that the code stores is the packed integer of the spec cut to its low 32 bits;
  read as the signed number that an \<^verbatim>\<open>int\<close> holds, it is the packed integer itself where
  the element id plus the offset is non-negative and below \<open>2\<^sup>2\<^sup>6\<close>. For a mesh within that
  range the ids of the skin faces, of the four triangles of each face and of the contact
  nodes are the integers of the spec.
\<close>

lemma int_mask_values: "(7 :: int) = mask 3" "(3 :: int) = mask 2"
  by (simp_all add: mask_eq_exp_minus_1)

lemma packed_entity_id_low_bits:
  "packed_entity_id x ordinal t = word_of_int (packed_integer x ordinal t)"
  unfolding packed_entity_id_def packed_integer_def mask_values int_mask_values
  by (rule bit_word_eqI) (auto simp: bit_simps)

lemma packed_integer_value:
  assumes "0 \<le> ordinal" and "ordinal < 8" and "0 \<le> t" and "t < 4"
  shows "packed_integer x ordinal t = 32 * x + 4 * ordinal + t"
proof -
  define U where "U = packed_integer x ordinal t"
  have a: "drop_bit 5 U = x"
    unfolding U_def packed_integer_def int_mask_values by (rule bit_eqI) (auto simp: bit_simps)
  have b: "take_bit 3 (drop_bit 2 U) = take_bit 3 ordinal"
    unfolding U_def packed_integer_def int_mask_values by (rule bit_eqI) (auto simp: bit_simps)
  have c: "take_bit 2 U = take_bit 2 t"
    unfolding U_def packed_integer_def int_mask_values by (rule bit_eqI) (auto simp: bit_simps)
  have o: "take_bit 3 ordinal = ordinal" using assms(1,2) by (intro take_bit_int_eq_self) simp_all
  have t: "take_bit 2 t = t" using assms(3,4) by (intro take_bit_int_eq_self) simp_all
  have a2: "U div 32 = x" using a by (simp add: drop_bit_eq_div)
  have b2: "(U div 4) mod 8 = ordinal" using b unfolding o by (simp add: drop_bit_eq_div take_bit_eq_mod)
  have c2: "U mod 4 = t" using c unfolding t by (simp add: take_bit_eq_mod)
  have "U = 32 * (U div 32) + 4 * ((U div 4) mod 8) + U mod 4"
  proof -
    have "U div 4 = 8 * (U div 4 div 8) + (U div 4) mod 8" by simp
    moreover have "U div 4 div 8 = U div 32" by (simp add: div_mult2_eq [symmetric])
    moreover have "U = 4 * (U div 4) + U mod 4" by simp
    ultimately show ?thesis by linarith
  qed
  then have "U = 32 * x + 4 * ordinal + t" by (simp only: a2 b2 c2)
  then show ?thesis unfolding U_def .
qed

lemma sint_packed_entity_id:
  "sint (packed_entity_id x ordinal t) = signed_take_bit 31 (packed_integer x ordinal t)"
  unfolding packed_entity_id_low_bits by (simp add: sint_sbintrunc')

lemma sint_packed_in_range:
  assumes "0 \<le> x" and "x < 2 ^ 26" and "0 \<le> ordinal" and "ordinal < 8" and "0 \<le> t" and "t < 4"
  shows "sint (packed_entity_id x ordinal t) = packed_integer x ordinal t"
proof -
  have v: "packed_integer x ordinal t = 32 * x + 4 * ordinal + t"
    using assms(3-6) by (rule packed_integer_value)
  have x: "x < 67108864" using assms(2) by simp
  have lo: "- (2 ^ 31) \<le> packed_integer x ordinal t"
  proof -
    have "0 \<le> 32 * x + 4 * ordinal + t" using assms(1,3,5) by linarith
    moreover have "- ((2::int) ^ 31) \<le> 0" by simp
    ultimately show ?thesis unfolding v by (rule order_trans [rotated])
  qed
  have hi: "packed_integer x ordinal t < 2 ^ 31"
  proof -
    have "32 * x + 4 * ordinal + t < 2147483648" using x assms(4,6) by linarith
    moreover have "(2::int) ^ 31 = 2147483648" by simp
    ultimately show ?thesis unfolding v by (simp only:)
  qed
  show ?thesis unfolding sint_packed_entity_id using lo hi by (rule signed_take_bit_int_eq_self)
qed


lemma sint_node_id:
  assumes "- (2 ^ 31) \<le> g + 1" and "g + 1 < 2 ^ 31"
  shows "sint (word_of_int (g + 1) :: 32 word) = g + 1"
proof -
  have l: "LENGTH(32) - 1 = (31::nat)" by simp
  have "sint (word_of_int (g + 1) :: 32 word) = signed_take_bit (LENGTH(32) - 1) (g + 1)"
    by (rule sint_sbintrunc')
  then have "sint (word_of_int (g + 1) :: 32 word) = signed_take_bit 31 (g + 1)"
    unfolding l .
  also have "\<dots> = g + 1" using assms by (rule signed_take_bit_int_eq_self)
  finally show ?thesis .
qed

lemma entity_ids_packed_in_range:
  assumes "SkinBlocks mesh block_ids off = Inr (skin_faces, entity_ids)"
    and "set ids \<subseteq> set entity_ids"
    and "length faces = length ids"
    and "length cfs0 = 4 * length faces"
    and "length cns0 = length (secondary_node_ids sec)"
    and "sec = secondary_nodes c' gids nids ghosted secondary_faces"
    and "CreateContactNodesAndFaces c faces ids (secondary_node_ids sec) (secondary_node_entity_ids sec)
           (secondary_node_char_lens sec) cns0 cfs0 = Inr (cns, cfs)"
    and "\<forall>f \<in> set (all_faces mesh block_ids). 0 \<le> fst (snd f) + off \<and> fst (snd f) + off < 2 ^ 26"
    and "\<forall>j<length (secondary_node_ids sec).
           - (2 ^ 31) \<le> gids (vec_at nids (secondary_node_ids sec ! j)) + 1
           \<and> gids (vec_at nids (secondary_node_ids sec ! j)) + 1 < 2 ^ 31"
  shows "map sint entity_ids
         = map (\<lambda>f. packed_integer (fst (snd f) + off) (int (snd (snd f))) 0)
               (skin_occurrences (all_faces mesh block_ids))
       \<and> (\<forall>i<length ids. \<exists>f \<in> set (skin_occurrences (all_faces mesh block_ids)).
             sint (ids ! i) = packed_integer (fst (snd f) + off) (int (snd (snd f))) 0
           \<and> (\<forall>t<4. sint (contact_entity_global_id (cfs ! (4 * i + t)))
                      = packed_integer (fst (snd f) + off) (int (snd (snd f))) (int t)))
       \<and> (\<forall>j<length (secondary_node_ids sec).
             sint (contact_entity_global_id (cns ! j))
             = gids (vec_at nids (secondary_node_ids sec ! j)) + 1)"
proof -
  note w = entity_ids_32_bit [OF assms(1-7)]
  have rng: "sint (packed_entity_id (fst (snd f) + off) (int (snd (snd f))) (int t))
             = packed_integer (fst (snd f) + off) (int (snd (snd f))) (int t)"
    if "f \<in> set (skin_occurrences (all_faces mesh block_ids))" and "t < 4" for f t
  proof -
    have m: "f \<in> set (all_faces mesh block_ids)" using that(1) by (auto simp: set_skin_occurrences)
    then have "snd (snd f) < 6" using all_faces_shape [of f mesh block_ids] by simp
    then have o: "0 \<le> int (snd (snd f))" "int (snd (snd f)) < 8" by simp_all
    have t: "0 \<le> int t" "int t < 4" using that(2) by simp_all
    from assms(8) m have x: "0 \<le> fst (snd f) + off" "fst (snd f) + off < 2 ^ 26" by blast+
    show ?thesis using x o t by (rule sint_packed_in_range)
  qed
  have a: "map sint entity_ids
         = map (\<lambda>f. packed_integer (fst (snd f) + off) (int (snd (snd f))) 0)
               (skin_occurrences (all_faces mesh block_ids))"
  proof -
    have "map sint entity_ids
          = map (\<lambda>f. sint (packed_entity_id (fst (snd f) + off) (int (snd (snd f))) 0))
                (skin_occurrences (all_faces mesh block_ids))"
      using w [THEN conjunct1] by (simp add: comp_def)
    also have "\<dots> = map (\<lambda>f. packed_integer (fst (snd f) + off) (int (snd (snd f))) 0)
                (skin_occurrences (all_faces mesh block_ids))"
      using rng [of _ 0] by (intro map_cong refl) simp
    finally show ?thesis .
  qed
  have b: "\<exists>f \<in> set (skin_occurrences (all_faces mesh block_ids)).
             sint (ids ! i) = packed_integer (fst (snd f) + off) (int (snd (snd f))) 0
           \<and> (\<forall>t<4. sint (contact_entity_global_id (cfs ! (4 * i + t)))
                      = packed_integer (fst (snd f) + off) (int (snd (snd f))) (int t))"
    if "i < length ids" for i
  proof -
    from w [THEN conjunct2, THEN conjunct1, rule_format, OF that]
    obtain f where f: "f \<in> set (skin_occurrences (all_faces mesh block_ids))"
      and i0: "ids ! i = packed_entity_id (fst (snd f) + off) (int (snd (snd f))) 0"
      and it: "\<forall>t<4. contact_entity_global_id (cfs ! (4 * i + t))
                      = packed_entity_id (fst (snd f) + off) (int (snd (snd f))) (int t)"
      by blast
    have "sint (ids ! i) = packed_integer (fst (snd f) + off) (int (snd (snd f))) 0"
      unfolding i0 using rng [OF f, of 0] by simp
    moreover have "\<forall>t<4. sint (contact_entity_global_id (cfs ! (4 * i + t)))
                      = packed_integer (fst (snd f) + off) (int (snd (snd f))) (int t)"
      using it rng [OF f] by simp
    ultimately show ?thesis using f by blast
  qed
  have c: "sint (contact_entity_global_id (cns ! j))
             = gids (vec_at nids (secondary_node_ids sec ! j)) + 1"
    if "j < length (secondary_node_ids sec)" for j
  proof -
    have "contact_entity_global_id (cns ! j)
          = word_of_int (gids (vec_at nids (secondary_node_ids sec ! j)) + 1)"
      using w [THEN conjunct2, THEN conjunct2, rule_format, OF that] .
    moreover from assms(9) that have "- (2 ^ 31) \<le> gids (vec_at nids (secondary_node_ids sec ! j)) + 1"
      "gids (vec_at nids (secondary_node_ids sec ! j)) + 1 < 2 ^ 31" by blast+
    ultimately show ?thesis by (simp only: sint_node_id)
  qed
  from a b c show ?thesis by blast
qed

text \<open>The single hexahedron with the offset 8 is within the range.\<close>

lemma one_hex_in_range:
  "\<forall>f \<in> set (all_faces one_hex [1]). 0 \<le> fst (snd f) + 8 \<and> fst (snd f) + 8 < 2 ^ 26"
  by code_simp

lemma entity_ids_packed_in_range_example:
  "\<exists>cns cfs.
     CreateContactNodesAndFaces square_coord [[0, 1, 2, 3]] [288]
       (secondary_node_ids (secondary_nodes square_coord (\<lambda>n. 10 * n) [0, 1, 2, 3, 4, 5] [0] [[1, 4, 5, 2]]))
       (secondary_node_entity_ids (secondary_nodes square_coord (\<lambda>n. 10 * n) [0, 1, 2, 3, 4, 5] [0] [[1, 4, 5, 2]]))
       (secondary_node_char_lens (secondary_nodes square_coord (\<lambda>n. 10 * n) [0, 1, 2, 3, 4, 5] [0] [[1, 4, 5, 2]]))
       [blank_entity, blank_entity, blank_entity, blank_entity]
       [blank_entity, blank_entity, blank_entity, blank_entity] = Inr (cns, cfs)
     \<and> sint (contact_entity_global_id (cfs ! 2)) = 290
     \<and> sint (contact_entity_global_id (cns ! 1)) = 41"
proof -
  let ?b = "[blank_entity, blank_entity, blank_entity, blank_entity]"
  define sec where "sec = secondary_nodes square_coord (\<lambda>n. 10 * n) [0, 1, 2, 3, 4, 5] [0] [[1, 4, 5, 2]]"
  have i: "secondary_node_ids sec = [1, 4, 5, 2]"
    by (simp add: sec_def secondary_nodes_def visit_face_def visit_node_simps upt_rec Let_def)
  have h2: "set [288] \<subseteq> set [304, 288, 300, 292, 296, 308 :: 32 word]" by simp
  have h3: "length [[0, 1, 2, 3::int]] = length [288 :: 32 word]" by simp
  have h4: "length ?b = 4 * length [[0, 1, 2, 3::int]]" by simp
  have h5: "length ?b = length (secondary_node_ids sec)" by (simp add: i)
  have h9: "\<forall>j<length (secondary_node_ids sec).
           - (2 ^ 31) \<le> (\<lambda>n::int. 10 * n) (vec_at [0, 1, 2, 3, 4, 5] (secondary_node_ids sec ! j)) + 1
           \<and> (\<lambda>n::int. 10 * n) (vec_at [0, 1, 2, 3, 4, 5] (secondary_node_ids sec ! j)) + 1 < 2 ^ 31"
    unfolding i by (simp add: vec_at_def less_Suc_eq nth_Cons split: nat.splits)
  have four: "\<forall>f \<in> set [[0, 1, 2, 3::int]]. length f = 4" by simp
  from create_returns [OF four h4 h5 sec_def, of square_coord "[288]"]
  obtain cns cfs where r: "CreateContactNodesAndFaces square_coord [[0, 1, 2, 3]] [288] (secondary_node_ids sec)
           (secondary_node_entity_ids sec) (secondary_node_char_lens sec) ?b ?b = Inr (cns, cfs)"
    by blast
  note t = entity_ids_packed_in_range [OF SkinBlocks_one_hex h2 h3 h4 h5 sec_def r one_hex_in_range h9]
  from t [THEN conjunct2, THEN conjunct1, rule_format, of 0]
  obtain f where f0: "sint ([288 :: 32 word] ! 0) = packed_integer (fst (snd f) + 8) (int (snd (snd f))) 0"
    and ft: "\<forall>t<4. sint (contact_entity_global_id (cfs ! (4 * 0 + t)))
                = packed_integer (fst (snd f) + 8) (int (snd (snd f))) (int t)"
     and fm: "f \<in> set (skin_occurrences (all_faces one_hex [1]))"
    by auto
  have "snd (snd f) < 6" using fm all_faces_shape [of f one_hex "[1]"] by (auto simp: set_skin_occurrences)
  then have o: "0 \<le> int (snd (snd f))" "int (snd (snd f)) < 8" by simp_all
  have v0: "packed_integer (fst (snd f) + 8) (int (snd (snd f))) 0 = 32 * (fst (snd f) + 8) + 4 * int (snd (snd f)) + 0"
    using o by (intro packed_integer_value) simp_all
  have v2: "packed_integer (fst (snd f) + 8) (int (snd (snd f))) (int 2) = 32 * (fst (snd f) + 8) + 4 * int (snd (snd f)) + int 2"
    using o by (intro packed_integer_value) simp_all
  have "sint (contact_entity_global_id (cfs ! 2)) = packed_integer (fst (snd f) + 8) (int (snd (snd f))) (int 2)"
    using ft [rule_format, of 2] by (simp add: eval_nat_numeral)
  moreover have "packed_integer (fst (snd f) + 8) (int (snd (snd f))) 0 = 288" using f0 by simp
  ultimately have a: "sint (contact_entity_global_id (cfs ! 2)) = 290" unfolding v0 v2 by simp
  have b: "sint (contact_entity_global_id (cns ! 1)) = 41"
    using t [THEN conjunct2, THEN conjunct2, rule_format, of 1] by (simp add: i vec_at_def)
  from r a b show ?thesis unfolding sec_def by blast
qed

text \<open>
  C5. The entity id is not the packed integer of the spec on every mesh that the code can
  be given: \<^verbatim>\<open>entity_id\<close> is a 32-bit \<^verbatim>\<open>int\<close>, where the comment of line 950 gives 59 bits
  to the element id plus the offset. In the mesh of two hexahedra with the element global
  ids 0 and \<open>2\<^sup>2\<^sup>7\<close> and the offset 15, the seventh skin face is face 4 of the element with
  the 1-based id \<open>2\<^sup>2\<^sup>7 + 1\<close>; \<^verbatim>\<open>SkinBlocks\<close> gives it the id 528, and the packed integer of
  the spec is \<open>2\<^sup>3\<^sup>2 + 528 = 4294967824\<close>.
\<close>

theorem SkinBlocks_id_truncated:
  "skin_occurrences (all_faces far_hexes [1]) ! 6 = ([8, 11, 10, 9], 134217729, 4)
   \<and> map_sum id (\<lambda>r. (fst r ! 6, sint (snd r ! 6))) (SkinBlocks far_hexes [1] 15)
     = Inr ([8, 11, 10, 9], 528)
   \<and> packed_integer (134217729 + 15) 4 0 = 4294967824"
  by code_simp

section \<open>Properties of the removal of partition-boundary faces\<close>

lemma build_faceList_upto:
  assumes "distinct (map (sorted_global_ids gids) faces)" and "n \<le> length faces"
  shows "fold (\<lambda>iface m. let fvec = sorted_global_ids gids (faces ! iface)
                      in if m fvec = None then m(fvec \<mapsto> iface) else m) [0..<n] Map.empty k = Some i
         \<longleftrightarrow> i < n \<and> sorted_global_ids gids (faces ! i) = k"
  using assms(2)
proof (induction n arbitrary: k i)
  case 0
  then show ?case by simp
next
  case (Suc n)
  let ?m = "fold (\<lambda>iface m. let fvec = sorted_global_ids gids (faces ! iface)
                      in if m fvec = None then m(fvec \<mapsto> iface) else m) [0..<n] Map.empty"
  let ?kn = "sorted_global_ids gids (faces ! n)"
  have ih: "?m k = Some i \<longleftrightarrow> i < n \<and> sorted_global_ids gids (faces ! i) = k" for k i
    using Suc by simp
  have n: "n < length faces" using Suc.prems by simp
  have fresh: "?m ?kn = None"
  proof (rule ccontr)
    assume "?m ?kn \<noteq> None"
    then obtain j where "?m ?kn = Some j" by auto
    then have j: "j < n" "sorted_global_ids gids (faces ! j) = ?kn" using ih by auto
    then have "map (sorted_global_ids gids) faces ! j = map (sorted_global_ids gids) faces ! n"
      using n by simp
    moreover have "j < length (map (sorted_global_ids gids) faces)"
      "n < length (map (sorted_global_ids gids) faces)" "j \<noteq> n" using j(1) n by simp_all
    ultimately show False using assms(1) unfolding distinct_conv_nth by blast
  qed
  have step: "fold (\<lambda>iface m. let fvec = sorted_global_ids gids (faces ! iface)
                      in if m fvec = None then m(fvec \<mapsto> iface) else m) [0..<Suc n] Map.empty
              = ?m(?kn \<mapsto> n)"
    using fresh by (simp add: Let_def)
  show ?case unfolding step using ih [of k i] fresh ih [of ?kn i] by (auto simp: less_Suc_eq)
qed

lemma build_faceList_Some:
  assumes "distinct (map (sorted_global_ids gids) faces)"
  shows "build_faceList gids faces k = Some i \<longleftrightarrow> i < length faces \<and> sorted_global_ids gids (faces ! i) = k"
  unfolding build_faceList_def using build_faceList_upto [OF assms order_refl] .

lemma check_buffer_mark:
  "check_buffer fl b r = fold (mark fl) (map (\<lambda>i. take 4 (drop (i * 4) b)) [0..<length b div 4]) r"
proof -
  have "check_buffer_face fl b = (\<lambda>i. mark fl (take 4 (drop (i * 4) b)))"
    by (intro ext) (simp add: check_buffer_face_def mark_def Let_def)
  then show ?thesis by (simp add: check_buffer_def fold_map comp_def)
qed

lemma fold_check_buffer:
  "fold (check_buffer fl) received r = fold (mark fl) (quad_list received) r"
  by (induction received arbitrary: r) (simp_all add: quad_list_def check_buffer_mark)

lemma set_quad_list: "set (quad_list received) = received_quads received"
  by (auto simp: quad_list_def received_quads_def)

lemma fold_mark:
  assumes "\<forall>q i. fl q = Some i \<longrightarrow> i < length (remove_face_hash r) \<and> i < length (remove_entity_ids_hash r)"
  shows "length (remove_face_hash (fold (mark fl) qs r)) = length (remove_face_hash r)
       \<and> length (remove_entity_ids_hash (fold (mark fl) qs r)) = length (remove_entity_ids_hash r)
       \<and> (\<forall>i<length (remove_face_hash r).
            remove_face_hash (fold (mark fl) qs r) ! i
            \<longleftrightarrow> remove_face_hash r ! i \<or> (\<exists>q \<in> set qs. fl q = Some i))
       \<and> (\<forall>i<length (remove_entity_ids_hash r).
            remove_entity_ids_hash (fold (mark fl) qs r) ! i
            \<longleftrightarrow> remove_entity_ids_hash r ! i \<or> (\<exists>q \<in> set qs. fl q = Some i))
       \<and> (iCountRemovals (fold (mark fl) qs r) = 0
            \<longleftrightarrow> iCountRemovals r = 0 \<and> (\<forall>q \<in> set qs. fl q = None))"
  using assms
proof (induction qs arbitrary: r)
  case Nil
  then show ?case by simp
next
  case (Cons q qs)
  show ?case
  proof (cases "fl q")
    case None
    then have m: "mark fl q r = r" by (simp add: mark_def)
    show ?thesis using Cons.IH [OF Cons.prems] None by (simp add: m)
  next
    case (Some j)
    define r' where "r' = mark fl q r"
    have r': "remove_face_hash r' = (remove_face_hash r)[j := True]"
      "remove_entity_ids_hash r' = (remove_entity_ids_hash r)[j := True]"
      "iCountRemovals r' = iCountRemovals r + 1"
      using Some by (simp_all add: r'_def mark_def)
    have j: "j < length (remove_face_hash r)" "j < length (remove_entity_ids_hash r)"
      using Cons.prems Some by auto
    have pre: "\<forall>q i. fl q = Some i \<longrightarrow> i < length (remove_face_hash r') \<and> i < length (remove_entity_ids_hash r')"
      using Cons.prems by (simp add: r')
    note ih = Cons.IH [OF pre]
    have f: "fold (mark fl) (q # qs) r = fold (mark fl) qs r'" by (simp add: r'_def)
    show ?thesis unfolding f using ih j Some
      by (auto simp: r' nth_list_update)
  qed
qed

lemma map_nth_filter:
  "map ((!) xs) (filter (\<lambda>i. P (xs ! i)) [0..<length xs]) = filter P xs"
proof (induction xs rule: rev_induct)
  case Nil
  then show ?case by simp
next
  case (snoc x xs)
  have "filter (\<lambda>i. P ((xs @ [x]) ! i)) [0..<length xs] = filter (\<lambda>i. P (xs ! i)) [0..<length xs]"
    by (intro filter_cong refl) (simp add: nth_append)
  moreover have "map ((!) (xs @ [x])) (filter (\<lambda>i. P (xs ! i)) [0..<length xs])
                 = map ((!) xs) (filter (\<lambda>i. P (xs ! i)) [0..<length xs])"
    by (intro map_cong refl) (simp add: nth_append)
  ultimately show ?case using snoc.IH by simp
qed

text \<open>
  C7. For local skin faces with four nodes each and pairwise different sorted global-id
  quadruples (what \<^verbatim>\<open>SkinBlocks\<close> returns on a mesh whose nodes have different global
  ids), a face is marked for removal exactly when its quadruple is among the received
  ones, and the result keeps the unmarked faces in their order, each with its own entity
  id.
\<close>

theorem RemoveInternalSkinFaces_compacts:
  assumes "length entity_ids = length faces"
    and "\<forall>f \<in> set faces. length f = 4"
    and "distinct (map (sorted_global_ids gids) faces)"
  shows "(\<forall>i<length faces.
            remove_face_hash (removal_marks gids received faces entity_ids) ! i
            \<longleftrightarrow> sorted_global_ids gids (faces ! i) \<in> received_quads received)
       \<and> RemoveInternalSkinFaces gids received faces entity_ids
           = (map fst (filter (\<lambda>p. sorted_global_ids gids (fst p) \<notin> received_quads received)
                              (zip faces entity_ids)),
              map snd (filter (\<lambda>p. sorted_global_ids gids (fst p) \<notin> received_quads received)
                              (zip faces entity_ids)))"
proof -
  define fl where "fl = build_faceList gids faces"
  define r0 where "r0 = \<lparr>remove_face_hash = replicate (length faces) False,
           remove_entity_ids_hash = replicate (length entity_ids) False, iCountRemovals = 0\<rparr>"
  define R where "R = removal_marks gids received faces entity_ids"
  define P where "P = (\<lambda>p :: int list \<times> 32 word. sorted_global_ids gids (fst p) \<notin> received_quads received)"
  define zs where "zs = zip faces entity_ids"
  have fl: "fl q = Some i \<longleftrightarrow> i < length faces \<and> sorted_global_ids gids (faces ! i) = q" for q i
    unfolding fl_def by (rule build_faceList_Some [OF assms(3)])
  have R: "R = fold (mark fl) (quad_list received) r0"
    by (simp add: R_def removal_marks_def fold_check_buffer fl_def r0_def)
  have pre: "\<forall>q i. fl q = Some i \<longrightarrow> i < length (remove_face_hash r0) \<and> i < length (remove_entity_ids_hash r0)"
    using fl assms(1) by (simp add: r0_def)
  note fm = fold_mark [OF pre, of "quad_list received", folded R, unfolded set_quad_list]
  have hit: "(\<exists>q \<in> received_quads received. fl q = Some i)
             \<longleftrightarrow> sorted_global_ids gids (faces ! i) \<in> received_quads received"
    if "i < length faces" for i
    using that fl by auto
  have rf: "remove_face_hash R ! i \<longleftrightarrow> sorted_global_ids gids (faces ! i) \<in> received_quads received"
    if "i < length faces" for i
    using fm that hit [OF that] by (simp add: r0_def)
  have re: "remove_entity_ids_hash R ! i \<longleftrightarrow> sorted_global_ids gids (faces ! i) \<in> received_quads received"
    if "i < length faces" for i
    using fm that hit [OF that] assms(1) by (simp add: r0_def)
  have cnt: "iCountRemovals R = 0 \<longleftrightarrow> (\<forall>q \<in> received_quads received. fl q = None)"
    using fm by (simp add: r0_def)
  have lz: "length zs = length faces" using assms(1) by (simp add: zs_def)
  have zf: "map fst zs = faces" and ze: "map snd zs = entity_ids"
    using assms(1) by (simp_all add: zs_def)
  have compact: "RemoveInternalSkinFaces gids received faces entity_ids
                 = (map fst (filter P zs), map snd (filter P zs))"
  proof (cases "iCountRemovals R = 0")
    case True
    have "P p" if "p \<in> set zs" for p
    proof -
      from that obtain i where i: "i < length faces" "fst p = faces ! i"
        unfolding zs_def by (auto simp: in_set_zip)
      have "fl (sorted_global_ids gids (faces ! i)) = Some i" using fl i(1) by simp
      then have "sorted_global_ids gids (faces ! i) \<notin> received_quads received"
        using True cnt by auto
      then show ?thesis by (simp add: P_def i(2))
    qed
    then have "filter P zs = zs" by (simp add: filter_id_conv)
    then show ?thesis using True zf ze
      by (simp add: RemoveInternalSkinFaces_def R_def [symmetric])
  next
    case False
    have keep: "filter (\<lambda>i. \<not> remove_face_hash R ! i) [0..<length faces]
                = filter (\<lambda>i. P (zs ! i)) [0..<length zs]"
      unfolding lz by (intro filter_cong refl) (simp add: rf P_def zs_def assms(1))
    have keep': "filter (\<lambda>i. \<not> remove_entity_ids_hash R ! i) [0..<length entity_ids]
                = filter (\<lambda>i. P (zs ! i)) [0..<length zs]"
      unfolding lz assms(1) by (intro filter_cong refl) (simp add: re P_def zs_def assms(1))
    have a: "map (\<lambda>i. faces ! i) (filter (\<lambda>i. P (zs ! i)) [0..<length zs])
             = map fst (map ((!) zs) (filter (\<lambda>i. P (zs ! i)) [0..<length zs]))"
      by (simp add: zs_def assms(1) comp_def)
    have b: "map (\<lambda>i. entity_ids ! i) (filter (\<lambda>i. P (zs ! i)) [0..<length zs])
             = map snd (map ((!) zs) (filter (\<lambda>i. P (zs ! i)) [0..<length zs]))"
      by (simp add: zs_def assms(1) comp_def)
    show ?thesis using False
      by (simp only: RemoveInternalSkinFaces_def R_def [symmetric] Let_def if_False keep keep' a b
            map_nth_filter)
  qed
  show ?thesis using rf compact unfolding R_def P_def zs_def by simp
qed

lemma example_keys:
  "sorted_global_ids (\<lambda>n. n + 100) [0, 1, 2, 3] = [100, 101, 102, 103]"
  "sorted_global_ids (\<lambda>n. n + 100) [1, 4, 5, 2] = [101, 102, 104, 105]"
  "sorted_global_ids (\<lambda>n. n + 100) [4, 5, 6, 7] = [104, 105, 106, 107]"
  by (simp_all add: sorted_global_ids_def upt_rec)

lemma example_quads:
  "received_quads [[101, 102, 104, 105, 1, 2, 3, 4], [7, 8, 9, 10]]
   = {[101, 102, 104, 105], [1, 2, 3, 4], [7, 8, 9, 10]}"
  by (simp add: received_quads_def lessThan_nat_numeral lessThan_Suc insert_commute)

theorem RemoveInternalSkinFaces_compacts_witness:
  "RemoveInternalSkinFaces (\<lambda>n. n + 100) [[101, 102, 104, 105, 1, 2, 3, 4], [7, 8, 9, 10]]
     [[0, 1, 2, 3], [1, 4, 5, 2], [4, 5, 6, 7]] [288, 292, 296]
   = ([[0, 1, 2, 3], [4, 5, 6, 7]], [288, 296])
   \<and> remove_face_hash (removal_marks (\<lambda>n. n + 100) [[101, 102, 104, 105, 1, 2, 3, 4], [7, 8, 9, 10]]
        [[0, 1, 2, 3], [1, 4, 5, 2], [4, 5, 6, 7]] [288, 292, 296]) ! 1
   \<and> \<not> remove_face_hash (removal_marks (\<lambda>n. n + 100) [[101, 102, 104, 105, 1, 2, 3, 4], [7, 8, 9, 10]]
        [[0, 1, 2, 3], [1, 4, 5, 2], [4, 5, 6, 7]] [288, 292, 296]) ! 2"
proof -
  have h1: "length [288, 292, 296 :: 32 word] = length [[0, 1, 2, 3], [1, 4, 5, 2], [4, 5, 6, 7::int]]"
    by simp
  have h2: "\<forall>f \<in> set [[0, 1, 2, 3], [1, 4, 5, 2], [4, 5, 6, 7::int]]. length f = 4" by simp
  have h3: "distinct (map (sorted_global_ids (\<lambda>n. n + 100)) [[0, 1, 2, 3], [1, 4, 5, 2], [4, 5, 6, 7]])"
    by (simp add: example_keys)
  note t = RemoveInternalSkinFaces_compacts [OF h1 h2 h3,
      of "[[101, 102, 104, 105, 1, 2, 3, 4], [7, 8, 9, 10]]", unfolded example_quads]
  have a: "RemoveInternalSkinFaces (\<lambda>n. n + 100) [[101, 102, 104, 105, 1, 2, 3, 4], [7, 8, 9, 10]]
     [[0, 1, 2, 3], [1, 4, 5, 2], [4, 5, 6, 7]] [288, 292, 296]
   = ([[0, 1, 2, 3], [4, 5, 6, 7]], [288, 296])"
    using t [THEN conjunct2] by (simp add: example_keys)
  have b: "remove_face_hash (removal_marks (\<lambda>n. n + 100) [[101, 102, 104, 105, 1, 2, 3, 4], [7, 8, 9, 10]]
        [[0, 1, 2, 3], [1, 4, 5, 2], [4, 5, 6, 7]] [288, 292, 296]) ! 1"
    using t [THEN conjunct1, rule_format, of 1] by (simp add: example_keys)
  have c: "\<not> remove_face_hash (removal_marks (\<lambda>n. n + 100) [[101, 102, 104, 105, 1, 2, 3, 4], [7, 8, 9, 10]]
        [[0, 1, 2, 3], [1, 4, 5, 2], [4, 5, 6, 7]] [288, 292, 296]) ! 2"
    using t [THEN conjunct1, rule_format, of 2] by (simp add: example_keys)
  from a b c show ?thesis by simp
qed

section \<open>Properties of the projection kernel\<close>





text \<open>
  The rounding of the double sum: \<open>binade x\<close> is the exponent of \<open>x\<close>, and \<open>round_double x\<close> is
  a point of the grid of the doubles of that exponent, at most half a spacing away,
  nearest to \<open>x\<close> among the points of the grid, the even multiple on a tie.
\<close>

lemma floor_log2_bounds:
  "1 \<le> n \<Longrightarrow> 0 \<le> floor_log2 n \<and> 2 ^ nat (floor_log2 n) \<le> n \<and> n < 2 * 2 ^ nat (floor_log2 n)"
proof (induction n rule: floor_log2.induct)
  case (1 n)
  show ?case
  proof (cases "n < 2")
    case True
    with 1(2) have "n = 1" by simp
    then show ?thesis by (simp add: floor_log2.simps)
  next
    case False
    then have h: "1 \<le> n div 2" by simp
    note ih = 1(1) [OF False h]
    define k where "k = floor_log2 (n div 2)"
    have k0: "0 \<le> k" and lo: "2 ^ nat k \<le> n div 2" and hi: "n div 2 < 2 * 2 ^ nat k"
      using ih unfolding k_def by simp_all
    have f: "floor_log2 n = 1 + k" using False unfolding k_def by (subst floor_log2.simps) simp
    have p: "(2::int) ^ nat (1 + k) = 2 * 2 ^ nat k" using k0 by (simp add: nat_add_distrib)
    have "2 * (n div 2) \<le> n" by simp
    moreover have "n < 2 * (n div 2) + 2" by presburger
    ultimately show ?thesis unfolding f p using k0 lo hi by simp
  qed
qed

lemma round_half_even_near: "\<bar>of_int (round_half_even x) - x\<bar> \<le> 1 / 2"
proof -
  define f where "f = \<lfloor>x\<rfloor>"
  define d where "d = x - of_int f"
  have d0: "0 \<le> d" and d1: "d < 1" unfolding d_def f_def by linarith+
  have x: "x = of_int f + d" unfolding d_def by simp
  have r: "round_half_even x
           = (if d < 1 / 2 then f else if 1 / 2 < d then f + 1 else if even f then f else f + 1)"
    unfolding round_half_even_def Let_def f_def [symmetric] d_def [symmetric] by (rule refl)
  consider "d < 1 / 2" | "1 / 2 < d" | "d = 1 / 2" by linarith
  then show ?thesis
  proof cases
    case 1
    then show ?thesis unfolding r using d0 by (simp add: x)
  next
    case 2
    then show ?thesis unfolding r using d1 by (simp add: x)
  next
    case 3
    then show ?thesis unfolding r by (simp add: x)
  qed
qed

lemma round_half_even_nearest: "\<bar>of_int (round_half_even x) - x\<bar> \<le> \<bar>of_int j - x\<bar>"
proof (cases "j = round_half_even x")
  case True
  then show ?thesis by simp
next
  case False
  then have "1 \<le> \<bar>j - round_half_even x\<bar>" by simp
  then have "(1::real) \<le> \<bar>of_int j - of_int (round_half_even x)\<bar>"
    by (metis of_int_1 of_int_abs of_int_diff of_int_le_iff)
  then show ?thesis using round_half_even_near [of x] by linarith
qed


lemma binade_bounds:
  assumes "x \<noteq> 0"
  shows "2 powi binade x \<le> \<bar>x\<bar> \<and> \<bar>x\<bar> < 2 powi (binade x + 1)"
proof (cases "1 \<le> \<bar>x\<bar>")
  case True
  define n where "n = \<lfloor>\<bar>x\<bar>\<rfloor>"
  define k where "k = floor_log2 n"
  have n1: "1 \<le> n" unfolding n_def using True by linarith
  have k0: "0 \<le> k" and lo: "2 ^ nat k \<le> n" and hi: "n < 2 * 2 ^ nat k"
    using floor_log2_bounds [OF n1] unfolding k_def by simp_all
  have b: "binade x = k" unfolding binade_def k_def n_def using True by simp
  have p0: "(2::real) powi k = 2 ^ nat k" using k0 by (simp add: power_int_def)
  have p1: "(2::real) powi (k + 1) = 2 * 2 ^ nat k" using k0 by (simp add: power_int_def nat_add_distrib)
  have "of_int n \<le> \<bar>x\<bar>" and "\<bar>x\<bar> < of_int n + 1" unfolding n_def by linarith+
  moreover have "(2::real) ^ nat k \<le> of_int n"
  proof -
    have "(of_int (2 ^ nat k) :: real) \<le> of_int n" using lo by (simp only: of_int_le_iff)
    then show ?thesis by simp
  qed
  moreover have "of_int n + 1 \<le> (2::real) * 2 ^ nat k"
  proof -
    have "n + 1 \<le> 2 * 2 ^ nat k" using hi by simp
    then have "(of_int (n + 1) :: real) \<le> of_int (2 * 2 ^ nat k)" by (simp only: of_int_le_iff)
    then show ?thesis by simp
  qed
  ultimately show ?thesis unfolding b p0 p1 by linarith
next
  case False
  define a where "a = \<bar>x\<bar>"
  have a0: "0 < a" and a1: "a < 1" unfolding a_def using assms False by simp_all
  define c where "c = \<lceil>1 / a\<rceil>"
  define k where "k = floor_log2 (c - 1)"
  have y1: "1 < 1 / a" using a0 a1 by simp
  have c2: "1 \<le> c - 1" unfolding c_def using y1 by linarith
  have k0: "0 \<le> k" and lo: "2 ^ nat k \<le> c - 1" and hi: "c - 1 < 2 * 2 ^ nat k"
    using floor_log2_bounds [OF c2] unfolding k_def by simp_all
  have b: "binade x = - k - 1" unfolding binade_def k_def c_def a_def using False by simp
  have p0: "(2::real) powi (- k - 1) = 1 / (2 * 2 ^ nat k)"
  proof -
    have "- k - 1 = - (k + 1)" by simp
    then have "(2::real) powi (- k - 1) = inverse (2 powi (k + 1))" by (simp only: power_int_minus)
    also have "(2::real) powi (k + 1) = 2 * 2 ^ nat k" using k0 by (simp add: power_int_def nat_add_distrib)
    finally show ?thesis by (simp add: inverse_eq_divide)
  qed
  have p1: "(2::real) powi (- k - 1 + 1) = 1 / 2 ^ nat k"
  proof -
    have "- k - 1 + 1 = - k" by simp
    then have "(2::real) powi (- k - 1 + 1) = inverse (2 powi k)" by (simp only: power_int_minus)
    also have "(2::real) powi k = 2 ^ nat k" using k0 by (simp add: power_int_def)
    finally show ?thesis by (simp add: inverse_eq_divide)
  qed
  have up: "1 / a \<le> of_int c" and dn: "of_int c - 1 < 1 / a" unfolding c_def by linarith+
  have cu: "of_int c \<le> (2::real) * 2 ^ nat k"
  proof -
    have "c \<le> 2 * 2 ^ nat k" using hi by simp
    then have "(of_int c :: real) \<le> of_int (2 * 2 ^ nat k)" by (simp only: of_int_le_iff)
    then show ?thesis by simp
  qed
  have cl: "(2::real) ^ nat k \<le> of_int c - 1"
  proof -
    have "(of_int (2 ^ nat k) :: real) \<le> of_int (c - 1)" using lo by (simp only: of_int_le_iff)
    then show ?thesis by simp
  qed
  have pos: "(0::real) < 2 ^ nat k" by simp
  have "1 / a \<le> 2 * 2 ^ nat k" using up cu by linarith
  then have l: "1 / (2 * 2 ^ nat k) \<le> a" using a0 pos by (simp add: field_simps)
  have "2 ^ nat k < 1 / a" using dn cl by linarith
  then have u: "a < 1 / 2 ^ nat k" using a0 pos by (simp add: field_simps)
  show ?thesis unfolding b p0 p1 a_def [symmetric] using l u by simp
qed

lemma round_double_nearest:
  assumes "x \<noteq> 0" and "ulp = 2 powi (max (binade x) (- 1022) - 52)"
  shows "round_double x = of_int (round_half_even (x / ulp)) * ulp
       \<and> \<bar>round_double x - x\<bar> \<le> ulp / 2
       \<and> \<bar>round_double x - x\<bar> \<le> \<bar>of_int j * ulp - x\<bar>"
proof -
  have u0: "0 < ulp" unfolding assms(2) by simp
  define m where "m = round_half_even (x / ulp)"
  have r: "round_double x = of_int m * ulp"
    unfolding round_double_def Let_def m_def assms(2) using assms(1) by simp
  have e: "of_int i * ulp - x = (of_int i - x / ulp) * ulp" for i :: int
    using u0 by (simp add: field_simps)
  have ab: "\<bar>of_int i * ulp - x\<bar> = \<bar>of_int i - x / ulp\<bar> * ulp" for i :: int
    unfolding e using u0 by (simp add: abs_mult)
  have "\<bar>of_int m - x / ulp\<bar> * ulp \<le> (1 / 2) * ulp"
    using round_half_even_near [of "x / ulp"] u0 unfolding m_def by (intro mult_right_mono) simp_all
  moreover have "\<bar>of_int m - x / ulp\<bar> * ulp \<le> \<bar>of_int j - x / ulp\<bar> * ulp"
    using round_half_even_nearest [of "x / ulp" j] u0 unfolding m_def by (intro mult_right_mono) simp_all
  ultimately show ?thesis unfolding r ab m_def [symmetric] by simp
qed

lemma round_half_even_tie:
  assumes "x - of_int \<lfloor>x\<rfloor> = 1 / 2"
  shows "even (round_half_even x)"
  unfolding round_half_even_def Let_def assms by simp




text \<open>
  The rounding on known doubles: \<^verbatim>\<open>0.1\<close> is \<open>3602879701896397 / 2\<^sup>5\<^sup>5\<close>, a tie goes to the
  even significand, and above \<open>2\<^sup>5\<^sup>3\<close> the doubles are the even integers.
\<close>

lemma round_double_examples:
  "round_double (1 / 10) = 3602879701896397 / 2 ^ 55"
  "round_double (- 1 / 3) = - 6004799503160661 / 2 ^ 54"
  "double_add 1 (1 / 2 ^ 53) = 1"
  "double_add 1 (3 / 2 ^ 53) = 1 + 2 / 2 ^ 52"
  "double_add 1 (3 / 2 ^ 54) = 1 + 1 / 2 ^ 52"
  "double_add 1 (- 3 / 4) = 1 / 4"
  "double_add 1 (2 ^ 53) = 2 ^ 53"
  "double_add 1 (2 ^ 53 + 2) = 2 ^ 53 + 4"
  by code_simp+

text \<open>Up to \<open>2\<^sup>-\<^sup>5\<^sup>3\<close>, about \<^verbatim>\<open>1.1e-16\<close>, the tolerance is lost in the sum.\<close>

lemma double_add_one_small:
  assumes "0 \<le> tol" and "tol \<le> 1 / 2 ^ 53"
  shows "double_add 1 tol = 1"
proof -
  define x where "x = 1 + tol"
  have x1: "1 \<le> x" and x2: "x < 2" using assms unfolding x_def by simp_all
  have fl: "\<lfloor>x\<rfloor> = 1" using x1 x2 by linarith
  have ab: "\<bar>x\<bar> = x" using x1 by simp
  have l1: "floor_log2 1 = 0" by (simp add: floor_log2.simps)
  have b: "binade x = 0" unfolding binade_def ab fl using x1 by (simp add: l1)
  define d where "d = tol * 2 ^ 52"
  have d0: "0 \<le> d" and d1: "d \<le> 1 / 2" using assms unfolding d_def by simp_all
  have u: "(2::real) powi (0 - 52) = 1 / 2 ^ 52"
  proof -
    have "(2::real) powi (- 52) = inverse (2 powi 52)" by (rule power_int_minus)
    also have "(2::real) powi 52 = 2 ^ 52" by simp
    finally show ?thesis by (simp add: inverse_eq_divide)
  qed
  have q: "x / (1 / 2 ^ 52) = 2 ^ 52 + d"
    unfolding x_def d_def by (simp add: field_simps)
  have f: "\<lfloor>(2::real) ^ 52 + d\<rfloor> = 2 ^ 52"
  proof (rule floor_unique)
    show "of_int (2 ^ 52) \<le> (2::real) ^ 52 + d" using d0 by simp
    show "(2::real) ^ 52 + d < of_int (2 ^ 52) + 1" using d1 by simp
  qed
  have r: "round_half_even (2 ^ 52 + d) = 2 ^ 52"
    unfolding round_half_even_def Let_def f using d1 by simp
  have nz: "x \<noteq> 0" using x1 by simp
  have m: "max (0::int) (- 1022) = 0" by simp
  have "round_double x = of_int (round_half_even (x / (1 / 2 ^ 52))) * (1 / 2 ^ 52)"
    unfolding round_double_def Let_def b m u using nz by (simp only: if_False)
  also have "\<dots> = of_int (2 ^ 52) * (1 / 2 ^ 52)" by (simp only: q r)
  also have "\<dots> = 1" by simp
  finally show ?thesis unfolding double_add_def x_def .
qed

text \<open>For a tolerance that is not negative the double sum is at least 1.\<close>

lemma double_add_one_ge:
  assumes "0 \<le> tol"
  shows "1 \<le> double_add 1 tol"
proof -
  define x where "x = 1 + tol"
  have x1: "1 \<le> x" unfolding x_def using assms by simp
  then have nz: "x \<noteq> 0" by simp
  define e where "e = binade x"
  have e0: "0 \<le> e"
  proof -
    have "1 \<le> \<lfloor>\<bar>x\<bar>\<rfloor>" using x1 by linarith
    from floor_log2_bounds [OF this] show ?thesis unfolding e_def binade_def using x1 by simp
  qed
  define ulp where "ulp = (2::real) powi (e - 52)"
  have m: "max (binade x) (- 1022) = e" unfolding e_def [symmetric] using e0 by simp
  have u: "ulp = 2 powi (max (binade x) (- 1022) - 52)" unfolding m ulp_def by (rule refl)
  have u0: "0 < ulp" unfolding ulp_def by simp
  show ?thesis
  proof (cases "e \<le> 52")
    case True
    have "of_int (2 ^ nat (52 - e)) * ulp = (2::real) powi (52 - e) * 2 powi (e - 52)"
      unfolding ulp_def using True by (simp add: power_int_def)
    also have "\<dots> = 2 powi ((52 - e) + (e - 52))" by (rule power_int_add [symmetric]) simp
    also have "\<dots> = 1" by simp
    finally have one: "of_int (2 ^ nat (52 - e)) * ulp = 1" .
    from round_double_nearest [OF nz u, of "2 ^ nat (52 - e)", THEN conjunct2, THEN conjunct2]
    have "\<bar>round_double x - x\<bar> \<le> \<bar>1 - x\<bar>" unfolding one .
    then show ?thesis unfolding double_add_def x_def [symmetric] using x1 by linarith
  next
    case False
    then have e53: "53 \<le> e" by simp
    have lo: "2 powi e \<le> x" using binade_bounds [OF nz] x1 unfolding e_def by simp
    have "(2::real) powi ((e - 52) + 52) = 2 powi (e - 52) * 2 powi 52"
      by (rule power_int_add) simp
    moreover have "(e - 52) + 52 = e" by simp
    moreover have "(2::real) powi 52 = 2 ^ 52" by simp
    ultimately have pe: "(2::real) powi e = ulp * 2 ^ 52" unfolding ulp_def by (simp only:)
    have "(2::real) powi 1 \<le> 2 powi (e - 52)" using e53 by (intro power_int_increasing) simp_all
    then have u2: "2 \<le> ulp" unfolding ulp_def by simp
    from round_double_nearest [OF nz u, of 0, THEN conjunct2, THEN conjunct1]
    have "\<bar>round_double x - x\<bar> \<le> ulp / 2" .
    then have "x - ulp / 2 \<le> round_double x" by linarith
    moreover have "ulp * 2 ^ 52 - ulp / 2 \<le> x - ulp / 2" using lo unfolding pe by simp
    moreover have "1 \<le> ulp * 2 ^ 52 - ulp / 2"
    proof -
      have "ulp * 2 ^ 52 - ulp / 2 = ulp * (2 ^ 52 - 1 / 2)" by (simp add: algebra_simps)
      moreover have "(1::real) \<le> 2 * (2 ^ 52 - 1 / 2)" by simp
      moreover have "2 * ((2::real) ^ 52 - 1 / 2) \<le> ulp * (2 ^ 52 - 1 / 2)"
        using u2 by (intro mult_right_mono) simp_all
      ultimately show ?thesis by linarith
    qed
    ultimately show ?thesis unfolding double_add_def x_def [symmetric] by linarith
  qed
qed










text \<open>
  The range tests of \<^verbatim>\<open>ClosestPointProjectionSingle\<close> are written with the sum \<open>1 + tol\<close>
  of real numbers. For a tolerance that is not negative the double sum is at least 1, so
  a weight that lies between the two sums is at least 1, and the type of the result is
  then NODE_OR_EDGE whether the weight passes the test or not.
\<close>

lemma ClosestPointProjectionSingle_weight_one:
  assumes "gamma = weight_3 (coord_1 node) (coord_1 tri) (coord_2 tri) (coord_3 tri)"
    and "beta = weight_2 (coord_1 node) (coord_1 tri) (coord_2 tri) (coord_3 tri)"
    and "alpha = 1 - gamma - beta"
    and "1 \<le> alpha \<or> 1 \<le> beta \<or> 1 \<le> gamma"
  shows "snd (ClosestPointProjectionSingle node tri tol) = NODE_OR_EDGE"
proof -
  define r where "r = (\<lambda>a. dot3 (normal_vector (coord_1 tri) (coord_2 tri) (coord_3 tri))
                            (normal_vector (coord_1 tri) (coord_2 tri) (coord_3 tri)) \<noteq> 0
                          \<and> a > - tol \<and> a < 1 + tol)"
  define z where "z = (\<lambda>a. dot3 (normal_vector (coord_1 tri) (coord_2 tri) (coord_3 tri))
                            (normal_vector (coord_1 tri) (coord_2 tri) (coord_3 tri)) \<noteq> 0
                          \<and> a > - tol \<and> a < tol)"
  have s: "snd (ClosestPointProjectionSingle node tri tol)
           = (if r alpha \<and> r beta \<and> r gamma
              then if z alpha \<or> z beta \<or> z gamma then NODE_OR_EDGE else FACE
              else NODE_OR_EDGE)"
    unfolding ClosestPointProjectionSingle_def Let_def assms(1-3) r_def z_def by simp
  have "z alpha \<or> z beta \<or> z gamma" if "r alpha" "r beta" "r gamma"
  proof -
    have sum: "alpha + beta + gamma = 1" unfolding assms(3) by simp
    from that have b: "- tol < alpha" "alpha < 1 + tol" "- tol < beta" "beta < 1 + tol"
      "- tol < gamma" "gamma < 1 + tol" unfolding r_def by simp_all
    from that have nz: "dot3 (normal_vector (coord_1 tri) (coord_2 tri) (coord_3 tri))
                            (normal_vector (coord_1 tri) (coord_2 tri) (coord_3 tri)) \<noteq> 0"
      unfolding r_def by simp
    from assms(4) sum b have "alpha < tol \<or> beta < tol \<or> gamma < tol" by linarith
    then show ?thesis unfolding z_def using nz b by auto
  qed
  then show ?thesis unfolding s by auto
qed






end
